theory Spec2Isabelle
  imports Complex_Main "HOL-Library.AList" "HOL-Library.Multiset"
begin

section \<open>Errors\<close>

text \<open>
  Every exception of the Python code is a value. \<open>KeyError\<close> and \<open>IndexError\<close> are
  Python's own; \<open>AccountingFault label n held\<close> is the resource counter's fault for a
  release of \<open>n\<close> slots under \<open>label\<close> while only \<open>held\<close> are taken, and
  \<open>ReallocationFault source n free\<close> the one for moving \<open>n\<close> slots out of a pool
  that has only \<open>free\<close> to give.
\<close>

datatype error =
    KeyError string
  | IndexError
  | AccountingFault string nat int
  | ReallocationFault "string option" nat int

section \<open>ResourceCounter\<close>

text \<open>
  Modelled from the spec: the class \<open>ResourceCounter\<close> is imported by the notebook
  from \<open>colmena.thinker.resources\<close> and its body is not part of the sources; only
  its callers are (\<open>ResourceCounter(n_parallel, ['simulate', 'train', 'infer'])\<close>,
  \<open>rec.reallocate(None, 'simulate', n_parallel)\<close>, \<open>rec.release('simulate', 1)\<close>
  and the \<open>task_submitter(task_type='simulate', n_slots=1)\<close> decorator, which
  acquires). The state is that of section 3 of the spec, "a mapping from task-type
  label to an integer count of currently allocated slots, plus a single pool of
  unallocated slots", together with the count of slots "available" under each label
  that section 2 and \<open>acquire\<close> speak of: \<open>allocated c l\<close> is the size of the pool
  assigned to label \<open>l\<close>, \<open>available c l\<close> the part of that pool no task holds.
  The slots a label holds are \<open>allocated c l - available c l\<close>.
  The notebook's comments read the same way ("Establishes pools of resources for each
  kind of task", "Assign all of the resources over to simulation", "Mark that the
  resources are now free"). Counts are integers, as in Python, so that a count that
  stays non-negative does so because of the guards and not because of its type.
\<close>

record counter =
  total_slots :: int
  labels :: "string list"
  unallocated :: int
  allocated :: "string \<Rightarrow> int"
  available :: "string \<Rightarrow> int"

text \<open>
  Modelled from the spec: the constructor. All slots start in the unallocated pool and
  every label has an empty pool; the labels are the keys of a mapping, so a repeated
  label counts once.
\<close>

definition ResourceCounter :: "nat \<Rightarrow> string list \<Rightarrow> counter" where
  "ResourceCounter n_slots task_types =
     \<lparr>total_slots = int n_slots, labels = remdups task_types, unallocated = int n_slots,
      allocated = (\<lambda>_. 0), available = (\<lambda>_. 0)\<rparr>"

definition held :: "counter \<Rightarrow> string \<Rightarrow> int" where
  "held c label = allocated c label - available c label"

text \<open>
  Modelled from the spec: \<open>acquire(label, n)\<close> "blocks the calling agent until n slots
  are available under label, then atomically marks them allocated and returns". The
  result \<open>Inr None\<close> is the blocked caller (nothing changes while it waits); a label that
  is not a key of the mapping is Python's \<open>KeyError\<close>.
\<close>

definition acquire :: "string \<Rightarrow> nat \<Rightarrow> counter \<Rightarrow> error + counter option" where
  "acquire label n c =
     (if label \<notin> set (labels c) then Inl (KeyError label)
      else if available c label < int n then Inr None
      else Inr (Some (c\<lparr>available := (available c)(label := available c label - int n)\<rparr>)))"

text \<open>
  Modelled from the spec: \<open>release(label, n)\<close> "atomically marks n previously-allocated
  slots under label as free", and "calling release with n exceeding the label's currently
  allocated count is an error": the slots released are slots taken under the label, so
  the release of more than the label holds is the fault, and so is, in a counter that
  satisfies the pool invariant, the release of more than are allocated to the label.
  The freed slots become available under the same label. The spec's words for where
  they go, "returned to the unallocated pool, not to another label", are followed in
  their second half only: the submitting agent of the notebook acquires under
  \<open>'simulate'\<close> what the result processor released under \<open>'simulate'\<close>, after
  \<open>__init__\<close> has left nothing unallocated, and Scenarios 1 and 2 of the spec need
  the same.
\<close>

definition release :: "string \<Rightarrow> nat \<Rightarrow> counter \<Rightarrow> error + counter" where
  "release label n c =
     (if label \<notin> set (labels c) then Inl (KeyError label)
      else if held c label < int n then Inl (AccountingFault label n (held c label))
      else Inr (c\<lparr>available := (available c)(label := available c label + int n)\<rparr>))"

text \<open>
  Modelled from the spec: \<open>reallocate(from_label_or_none, to_label, n)\<close> "atomically
  moves n slots from from_label (or from the unallocated pool if from_label is the
  sentinel none) into to_label. Fails if from_label does not currently hold n
  allocated (or unallocated pool does not hold n, respectively) slots; succeeds
  otherwise and wakes any acquire waiters on to_label". The slots that arrive are
  available under \<open>to_label\<close>. A label gives away slots no task holds: the move out of
  a label fails when fewer than \<open>n\<close> are available under it, which covers the case
  of fewer than \<open>n\<close> allocated to it.
\<close>

definition reallocate :: "string option \<Rightarrow> string \<Rightarrow> nat \<Rightarrow> counter \<Rightarrow> error + counter" where
  "reallocate task_from task_to n c =
     (if task_to \<notin> set (labels c) then Inl (KeyError task_to)
      else case task_from of
        None \<Rightarrow>
          if unallocated c < int n then Inl (ReallocationFault None n (unallocated c))
          else Inr (c\<lparr>unallocated := unallocated c - int n,
                      allocated := (allocated c)(task_to := allocated c task_to + int n),
                      available := (available c)(task_to := available c task_to + int n)\<rparr>)
      | Some src \<Rightarrow>
          if src \<notin> set (labels c) then Inl (KeyError src)
          else if available c src < int n then Inl (ReallocationFault (Some src) n (available c src))
          else Inr (c\<lparr>allocated := ((allocated c)(src := allocated c src - int n))
                                    (task_to := ((allocated c)(src := allocated c src - int n)) task_to + int n),
                      available := ((available c)(src := available c src - int n))
                                    (task_to := ((available c)(src := available c src - int n)) task_to + int n)\<rparr>))"

text \<open>
  The three operations as data, and a counter driven by a sequence of them. An
  operation that blocks or fails leaves the counter as it was.
\<close>

datatype counter_op =
    Acquire string nat
  | Release string nat
  | Reallocate "string option" string nat

fun perform :: "counter \<Rightarrow> counter_op \<Rightarrow> counter" where
  "perform c (Acquire label n) =
     (case acquire label n c of Inr (Some c') \<Rightarrow> c' | _ \<Rightarrow> c)"
| "perform c (Release label n) =
     (case release label n c of Inr c' \<Rightarrow> c' | Inl _ \<Rightarrow> c)"
| "perform c (Reallocate task_from task_to n) =
     (case reallocate task_from task_to n c of Inr c' \<Rightarrow> c' | Inl _ \<Rightarrow> c)"

definition allocated_total :: "counter \<Rightarrow> int" where
  "allocated_total c = sum_list (map (allocated c) (labels c))"

text \<open>The invariant of the pool: what every reachable counter satisfies.\<close>

definition pool_ok :: "counter \<Rightarrow> bool" where
  "pool_ok c \<longleftrightarrow>
     distinct (labels c) \<and> 0 \<le> unallocated c \<and>
     list_all (\<lambda>l. 0 \<le> available c l \<and> available c l \<le> allocated c l) (labels c) \<and>
     (\<forall>l. l \<notin> set (labels c) \<longrightarrow> allocated c l = 0 \<and> available c l = 0) \<and>
     allocated_total c + unallocated c = total_slots c"

section \<open>Task results and the topic task queue\<close>

text \<open>
  \<open>colmena.models.Result\<close>, with the fields the notebooks read: \<open>result.success\<close>,
  \<open>result.args\<close>, \<open>result.value\<close> and \<open>result.failure_info\<close> in
  \<open>receive_calc\<close>, the keys \<open>inputs\<close> and \<open>value\<close> left out by
  \<open>result.json(exclude={'inputs', 'value'})\<close>, and the columns \<open>method\<close>,
  \<open>success\<close>, \<open>inputs\<close>, \<open>value\<close>, \<open>time_compute_started\<close>,
  \<open>time_running\<close>, \<open>time_result_received\<close> and \<open>worker_info\<close> of the
  performance notebook.
  \<open>inputs\<close> is the pair of positional and keyword arguments (the performance notebook
  reads the molecule as \<open>x[0][0]\<close>), and \<open>args\<close> its first component. The returned
  value is opaque (\<open>'v\<close>). The notebooks do not read \<open>topic\<close> and
  \<open>time_created\<close>: they are the topic label of the request and the "timestamp task
  became eligible to run" of the Task Result in section 3 of the spec.
  The field \<open>method\<close> is written \<open>task_method\<close>.
\<close>

record 'v result =
  task_method :: string
  inputs :: "string list \<times> (string \<times> string) list"
  success :: bool
  "value" :: 'v
  failure_info :: string
  topic :: string
  time_created :: real
  time_compute_started :: real
  time_running :: real
  time_result_received :: real
  worker_info :: "(string \<times> string) list"

definition args :: "'v result \<Rightarrow> string list" where
  "args r = fst (inputs r)"

record request =
  req_method :: string
  req_args :: "string list"
  req_topic :: string

text \<open>
  Modelled from the spec: \<open>PipeQueues\<close> is imported from \<open>colmena.queue.python\<close>
  and its body is not part of the sources. Section 4.2 of the spec: \<open>submit\<close> "enqueues
  the request for execution by the backend; returns immediately"; results are "buffered
  (never dropped) until some agent calls receive for that topic", and within a topic
  they are delivered in completion order. \<open>requests\<close> holds what the backend has not
  completed yet, \<open>results t\<close> the completed results of topic \<open>t\<close> nobody has received.
\<close>

record 'v queues =
  topics :: "string list"
  requests :: "request list"
  results :: "string \<Rightarrow> 'v result list"

definition PipeQueues :: "string list \<Rightarrow> 'v queues" where
  "PipeQueues ts = \<lparr>topics = ts, requests = [], results = (\<lambda>_. [])\<rparr>"

definition send_inputs :: "string list \<Rightarrow> string \<Rightarrow> string \<Rightarrow> 'v queues \<Rightarrow> 'v queues" where
  "send_inputs input_args method_name topic_name q =
     q\<lparr>requests := requests q @
          [\<lparr>req_method = method_name, req_args = input_args, req_topic = topic_name\<rparr>]\<rparr>"

text \<open>
  Modelled from the spec: the backend's end of the queue. A completed result is put
  behind the results of its own topic.
\<close>

definition deliver :: "'v result \<Rightarrow> 'v queues \<Rightarrow> 'v queues" where
  "deliver r q = q\<lparr>results := (results q)(topic r := results q (topic r) @ [r])\<rparr>"

fun arrive :: "'v result option \<Rightarrow> 'v queues \<Rightarrow> 'v queues" where
  "arrive None q = q"
| "arrive (Some r) q = deliver r q"

datatype 'v received = NoResult | Got "'v result"

text \<open>
  Modelled from the spec: \<open>receive(topic, timeout)\<close>, which the notebook calls as
  \<open>queues.get_result(topic=..., timeout=...)\<close>: it "blocks the calling agent until a
  result tagged with topic is available, or until timeout elapses. On timeout, returns
  a distinguished no result outcome". Time is counted in ticks: \<open>feed\<close> lists what the
  backend delivers at each tick of the wait (\<open>None\<close>: nothing; an exhausted feed:
  nothing any more), and \<open>timeout\<close> is the number of ticks the caller is ready to
  wait. The call returns the outcome, the queue, and the part of the feed that lies
  after its return. (The notebook sees the timeout in the \<open>except\<close> branch of a
  \<open>try\<close> around the call: "Timed out, as expected".)
\<close>

fun get_result ::
  "string \<Rightarrow> nat \<Rightarrow> 'v result option list \<Rightarrow> 'v queues
     \<Rightarrow> 'v received \<times> 'v queues \<times> 'v result option list" where
  "get_result t timeout feed q =
     (case results q t of
        r # rs \<Rightarrow> (Got r, q\<lparr>results := (results q)(t := rs)\<rparr>, feed)
      | [] \<Rightarrow>
          (case timeout of
             0 \<Rightarrow> (NoResult, q, feed)
           | Suc ticks \<Rightarrow>
               (case feed of
                  [] \<Rightarrow> get_result t ticks [] q
                | a # later \<Rightarrow> get_result t ticks later (arrive a q))))"

text \<open>
  Modelled from the spec: the execution backend of section 6, which "accepts a Task
  Request and asynchronously produces exactly one Task Result per request, delivered
  through the Topic Task Queue", and "may fail an individual task". \<open>complete i r\<close>
  completes the pending request number \<open>i\<close> with the outcome \<open>r\<close> (success flag,
  value, failure description, times); the result echoes the request's method, input and
  topic. There is nothing to complete (\<open>None\<close>) when \<open>i\<close> is not a pending request.
\<close>

definition complete :: "nat \<Rightarrow> 'v result \<Rightarrow> 'v queues \<Rightarrow> 'v queues option" where
  "complete i r q =
     (if i < length (requests q)
      then Some (deliver
             (r\<lparr>task_method := req_method (requests q ! i),
                inputs := (req_args (requests q ! i), []),
                topic := req_topic (requests q ! i)\<rparr>)
             (q\<lparr>requests := take i (requests q) @ drop (Suc i) (requests q)\<rparr>))
      else None)"

section \<open>RandomThinker\<close>

text \<open>
  What a call of an agent's method comes to: it returns with a new state, it cannot
  run now (\<open>Stuck\<close>: the agent is blocked, or its loop has ended), or it raises, and
  the state is the one at the \<open>raise\<close>.
\<close>

datatype 'a progress = Reached 'a | Stuck | Crashed error 'a

text \<open>
  The attributes of \<open>RandomThinker\<close>: those its \<open>__init__\<close> sets, and \<open>rec\<close>,
  \<open>queues\<close>, \<open>done\<close> and \<open>logger\<close> of \<open>BaseThinker\<close>. The two progress bars are
  the counts they show; \<open>logger\<close> is the list of the warnings written. The
  dictionary \<open>database\<close> is the list of its items in insertion order, with one item
  per key: \<open>database[k] = v\<close> is \<open>AList.update k v\<close>, and \<open>len(database)\<close> the
  length of the list.
\<close>

record 'v thinker =
  rec :: counter
  queues :: "'v queues"
  molecule_list :: "string set"
  n_to_evaluate :: int
  database :: "(string \<times> 'v) list"
  simulation_results :: "'v result list"
  priority_list :: "string list"
  rec_progbar :: nat
  sent_progbar :: nat
  "done" :: bool
  logger :: "string list"

text \<open>
  \<open>RandomThinker.__init__\<close>. \<open>list(self.molecule_list)\<close> lists a set in an order
  Python does not fix and \<open>shuffle\<close> permutes it at random: the parameter \<open>shuffle\<close>
  is the order both give to the molecules without their repetitions. The last
  statement, \<open>self.rec.reallocate(None, 'simulate', n_parallel)\<close>, can raise.
\<close>

definition RandomThinker ::
  "'v queues \<Rightarrow> int \<Rightarrow> nat \<Rightarrow> string list \<Rightarrow> (string list \<Rightarrow> string list)
     \<Rightarrow> error + 'v thinker" where
  "RandomThinker qs n_eval n_parallel molecules shuffle =
     (case reallocate None ''simulate'' n_parallel
             (ResourceCounter n_parallel [''simulate'', ''train'', ''infer'']) of
        Inl e \<Rightarrow> Inl e
      | Inr c \<Rightarrow>
          Inr \<lparr>rec = c, queues = qs, molecule_list = set molecules, n_to_evaluate = n_eval,
               database = [], simulation_results = [],
               priority_list = shuffle (remdups molecules),
               rec_progbar = 0, sent_progbar = 0, done = False, logger = []\<rparr>)"

text \<open>
  \<open>RandomThinker.submit_calc\<close>: \<open>self.priority_list.pop()\<close> takes the last molecule
  of the list and raises \<open>IndexError\<close> on an empty list; \<open>send_inputs\<close> is called
  without a topic, which is the topic \<open>default\<close>.
\<close>

definition submit_calc :: "'v thinker \<Rightarrow> 'v thinker progress" where
  "submit_calc st =
     (case priority_list st of
        [] \<Rightarrow> Crashed IndexError st
      | _ # _ \<Rightarrow>
          Reached (st\<lparr>priority_list := butlast (priority_list st),
                      queues := send_inputs [last (priority_list st)] ''compute_vertical''
                                  ''default'' (queues st),
                      rec_progbar := rec_progbar st + 1\<rparr>))"

text \<open>
  \<open>RandomThinker.receive_calc\<close>, statement by statement: the release, which can
  raise; on success the database entry under \<open>result.args[0]\<close> (an \<open>IndexError\<close>
  when there is no argument), the progress bar and the test of the database's size; on
  failure the warning; and the append to \<open>simulation_results\<close> in both cases.
\<close>

definition receive_calc :: "'v thinker \<Rightarrow> 'v result \<Rightarrow> 'v thinker progress" where
  "receive_calc st r =
     (case release ''simulate'' 1 (rec st) of
        Inl e \<Rightarrow> Crashed e st
      | Inr c \<Rightarrow>
          (let st1 = st\<lparr>rec := c\<rparr> in
           if success r then
             (case args r of
                [] \<Rightarrow> Crashed IndexError st1
              | a # _ \<Rightarrow>
                  (let st2 = st1\<lparr>database := AList.update a (value r) (database st1),
                                 sent_progbar := sent_progbar st1 + 1\<rparr>;
                       st3 = (if n_to_evaluate st2 \<le> int (length (database st2))
                              then st2\<lparr>done := True\<rparr> else st2)
                   in Reached (st3\<lparr>simulation_results := simulation_results st3 @ [r]\<rparr>)))
           else
             Reached (st1\<lparr>logger := logger st1 @ [''Simulation failure: '' @ failure_info r],
                          simulation_results := simulation_results st1 @ [r]\<rparr>)))"

section \<open>The agents\<close>

text \<open>
  Modelled from the spec: the decorators \<open>task_submitter\<close> and \<open>result_processor\<close>
  come from \<open>colmena.thinker\<close>. Section 4.3 of the spec: the task-submitting agent
  "loops while termination is unset: acquire n slots of a given label (blocking),
  decide the next task to submit", and "does not release the slot itself"; the
  result-processing agent blocks "on receive(topic, timeout); on a real result" runs
  the method, and "on timeout, re-loop". Each function below is one turn of such a
  loop. The termination signal stops the submissions; it does not stop the result
  processor from taking the results of the tasks already submitted: section 5 of the
  spec has that "already-acquired slots must still be released by whichever
  result-processing agent eventually observes their result", and the notebook says of
  its run that "the thinker will receive more than the requested number of
  calculations, as we stop submitting only after enough have completed and wait until
  all submitted tasks complete".
\<close>

definition task_submitter ::
  "string \<Rightarrow> nat \<Rightarrow> ('v thinker \<Rightarrow> 'v thinker progress) \<Rightarrow> 'v thinker \<Rightarrow> 'v thinker progress" where
  "task_submitter task_type n_slots f st =
     (if done st then Stuck
      else case acquire task_type n_slots (rec st) of
        Inl e \<Rightarrow> Crashed e st
      | Inr None \<Rightarrow> Stuck
      | Inr (Some c) \<Rightarrow> f (st\<lparr>rec := c\<rparr>))"

definition result_processor ::
  "string \<Rightarrow> ('v thinker \<Rightarrow> 'v result \<Rightarrow> 'v thinker progress) \<Rightarrow> 'v thinker \<Rightarrow> 'v thinker progress" where
  "result_processor topic_name f st =
     (case get_result topic_name 0 [] (queues st) of
        (NoResult, _, _) \<Rightarrow> Reached st
      | (Got r, q, _) \<Rightarrow> f (st\<lparr>queues := q\<rparr>) r)"

text \<open>
  The thinker at work: the submitting agent takes a turn (\<open>submit_calc\<close> is decorated
  with \<open>task_submitter(task_type='simulate', n_slots=1)\<close>), the backend completes a
  pending task, or the result processor takes a turn (\<open>receive_calc\<close> is decorated
  with \<open>result_processor\<close>, on the topic \<open>default\<close>). A run follows a schedule of
  such events and stops at the first that cannot happen or that raises.
\<close>

datatype 'v event = Submit | Complete nat "'v result" | Process

fun step :: "'v event \<Rightarrow> 'v thinker \<Rightarrow> 'v thinker progress" where
  "step Submit st = task_submitter ''simulate'' 1 submit_calc st"
| "step (Complete i r) st =
     (case complete i r (queues st) of
        None \<Rightarrow> Stuck
      | Some q \<Rightarrow> Reached (st\<lparr>queues := q\<rparr>))"
| "step Process st = result_processor ''default'' receive_calc st"

fun run :: "'v event list \<Rightarrow> 'v thinker \<Rightarrow> 'v thinker progress" where
  "run [] st = Reached st"
| "run (e # es) st =
     (case step e st of
        Reached st' \<Rightarrow> run es st'
      | Stuck \<Rightarrow> Stuck
      | Crashed err st' \<Rightarrow> Crashed err st')"

text \<open>
  The tasks outstanding: submitted, and their result not processed yet. They wait at
  the backend or, completed, in the queue of the topic \<open>default\<close>.
\<close>

definition outstanding :: "'v thinker \<Rightarrow> nat" where
  "outstanding st = length (requests (queues st)) + length (results (queues st) ''default'')"

section \<open>Sequences of calls and the state of the whole thinker\<close>

text \<open>The operations that are neither an acquire nor a reallocate.\<close>

fun is_release :: "counter_op \<Rightarrow> bool" where
  "is_release (Release _ _) = True"
| "is_release _ = False"

text \<open>
  A counter with two slots, both assigned to \<open>simulate\<close>, one of them taken.
\<close>

definition two_slots :: counter where
  "two_slots = foldl perform (ResourceCounter 2 [''simulate''])
                 [Reallocate None ''simulate'' 2, Acquire ''simulate'' 1]"

text \<open>
  \<open>k\<close> calls of \<open>submit_calc\<close> in a row, up to the first that raises, and the task
  request \<open>submit_calc\<close> sends for a molecule.
\<close>

fun submits :: "nat \<Rightarrow> 'v thinker \<Rightarrow> 'v thinker progress" where
  "submits 0 st = Reached st"
| "submits (Suc k) st =
     (case submit_calc st of
        Reached st' \<Rightarrow> submits k st'
      | Stuck \<Rightarrow> Stuck
      | Crashed err st' \<Rightarrow> Crashed err st')"

definition simulation_request :: "string \<Rightarrow> request" where
  "simulation_request mol = \<lparr>req_method = ''compute_vertical'', req_args = [mol], req_topic = ''default''\<rparr>"

text \<open>
  What holds of the thinker between two events: the counter's invariant, the whole
  pool assigned to \<open>simulate\<close>, every pending request and every waiting result on
  the topic \<open>default\<close> and with an argument; and the slots held under \<open>simulate\<close>
  are as many as the tasks outstanding.
\<close>

definition sys_ok :: "nat \<Rightarrow> 'v thinker \<Rightarrow> bool" where
  "sys_ok n st \<longleftrightarrow>
     pool_ok (rec st) \<and> ''simulate'' \<in> set (labels (rec st))
     \<and> allocated (rec st) ''simulate'' = int n
     \<and> list_all (\<lambda>rq. req_topic rq = ''default'' \<and> req_args rq \<noteq> []) (requests (queues st))
     \<and> list_all (\<lambda>r. args r \<noteq> []) (results (queues st) ''default'')"

definition slots_match :: "'v thinker \<Rightarrow> bool" where
  "slots_match st \<longleftrightarrow> held (rec st) ''simulate'' = int (outstanding st)"

text \<open>The topics of the notebook's queue: \<open>PipeQueues(topics=['simulate', 'train', 'infer'], ...)\<close>.\<close>

definition three_topics :: "string list" where
  "three_topics = [''simulate'', ''train'', ''infer'']"

text \<open>
  The results the result processor has taken from the queue along a schedule: one for
  each of its turns that finds a result waiting.
\<close>

definition received :: "'v thinker \<Rightarrow> 'v result list" where
  "received st =
     (case get_result ''default'' 0 [] (queues st) of
        (NoResult, _, _) \<Rightarrow> []
      | (Got r, _, _) \<Rightarrow> [r])"

fun consumed :: "'v event list \<Rightarrow> 'v thinker \<Rightarrow> 'v result list" where
  "consumed [] st = []"
| "consumed (e # es) st =
     (case e of Process \<Rightarrow> received st | _ \<Rightarrow> [])
     @ (case step e st of Reached st' \<Rightarrow> consumed es st' | _ \<Rightarrow> [])"

text \<open>
  The termination signal is set exactly when the database has reached the target size
  (what holds between events when the target is positive).
\<close>

definition done_ok :: "'v thinker \<Rightarrow> bool" where
  "done_ok st \<longleftrightarrow> (done st \<longleftrightarrow> n_to_evaluate st \<le> int (length (database st)))"

section \<open>The replacement loop of the Parsl notebook\<close>

text \<open>
  The first notebook gathers its initial data with futures: \<open>future.task_def['args']\<close>
  are the arguments of the task, \<open>future.exception()\<close> is \<open>None\<close> for a task
  that succeeded, \<open>future.result()\<close> its value. A row of \<open>train_data\<close> is the
  dictionary with the keys \<open>smiles\<close>, \<open>ie\<close>, \<open>batch\<close> and \<open>time\<close>.
\<close>

record 'v future =
  task_args :: "string list"
  exception :: "string option"
  task_result :: 'v

record 'v row =
  smiles :: string
  ie :: 'v
  batch :: nat
  time :: real

text \<open>
  The body of \<open>while len(futures) > 0\<close>. \<open>next(as_completed(futures))\<close> is one of
  the running futures, whichever completes first: the one the number \<open>pick\<close> selects.
  \<open>futures.remove(future)\<close> removes its first occurrence. For a failed task,
  \<open>new_future\<close> is the future of the replacement,
  \<open>compute_vertical_app(search_space.sample(1).iloc[0]['smiles'])\<close>; \<open>now\<close> is
  \<open>monotonic()\<close>.
\<close>

definition replace_or_store ::
  "nat \<Rightarrow> 'v future \<Rightarrow> real \<Rightarrow> 'v future list \<times> 'v row list
     \<Rightarrow> error + 'v future list \<times> 'v row list" where
  "replace_or_store pick new_future now state =
     (case state of (futures, train_data) \<Rightarrow>
        (let future = futures ! (pick mod length futures);
             futures' = remove1 future futures
         in case task_args future of
              [] \<Rightarrow> Inl IndexError
            | mol # _ \<Rightarrow>
                if exception future \<noteq> None
                then Inr (futures' @ [new_future], train_data)
                else Inr (futures',
                          train_data @ [\<lparr>smiles = mol, ie = task_result future, batch = 0,
                                          time = now\<rparr>])))"

text \<open>
  The loop, driven by a schedule that gives each iteration its \<open>pick\<close>, its
  replacement and its clock. It ends when no future is left; \<open>None\<close> is a loop still
  running when the schedule ends.
\<close>

fun gather_initial ::
  "(nat \<times> 'v future \<times> real) list \<Rightarrow> 'v future list \<Rightarrow> 'v row list
     \<Rightarrow> (error + 'v row list) option" where
  "gather_initial [] futures train_data =
     (if futures = [] then Some (Inr train_data) else None)"
| "gather_initial ((pick, new_future, now) # later) futures train_data =
     (if futures = [] then Some (Inr train_data)
      else case replace_or_store pick new_future now (futures, train_data) of
        Inl e \<Rightarrow> Some (Inl e)
      | Inr (futures', train_data') \<Rightarrow> gather_initial later futures' train_data')"

section \<open>Sample outcomes\<close>

text \<open>
  What the backend reports for a simulation that returned an energy and for one that
  failed, and two futures of the Parsl notebook, the first failed.
\<close>

definition energy :: "int result" where
  "energy = \<lparr>task_method = [], inputs = ([], []), success = True, value = 7,
     failure_info = [], topic = [], time_created = 0, time_compute_started = 1,
     time_running = 2, time_result_received = 4,
     worker_info = [(''hostname'', ''node''), (''PARSL_WORKER_RANK'', ''0'')]\<rparr>"

definition xtb_failed :: "int result" where
  "xtb_failed = energy\<lparr>success := False, failure_info := ''xtb failed''\<rparr>"

definition failed_future :: "int future" where
  "failed_future = \<lparr>task_args = [''C''], exception = Some ''xtb failed'', task_result = 0\<rparr>"

definition other_future :: "int future" where
  "other_future = \<lparr>task_args = [''O''], exception = None, task_result = 7\<rparr>"

text \<open>
  The thinker \<open>RandomThinker(queues, 0, 2, ['C', 'O'])\<close>, with a target of no
  molecule at all, and its state after one submission whose task fails and whose result
  is processed.
\<close>

definition zero_target :: "int thinker" where
  "zero_target =
     \<lparr>rec = \<lparr>total_slots = 2, labels = [''simulate'', ''train'', ''infer''], unallocated = 0,
              allocated = (\<lambda>_. 0)(''simulate'' := 2), available = (\<lambda>_. 0)(''simulate'' := 2)\<rparr>,
      queues = PipeQueues three_topics, molecule_list = {''C'', ''O''}, n_to_evaluate = 0,
      database = [], simulation_results = [], priority_list = [''O'', ''C''],
      rec_progbar = 0, sent_progbar = 0, done = False, logger = []\<rparr>"

definition zero_target_after :: "int thinker" where
  "zero_target_after =
     (case run [Submit, Complete 0 xtb_failed, Process] zero_target of
        Reached st \<Rightarrow> st
      | _ \<Rightarrow> zero_target)"

section \<open>The queue in use\<close>

text \<open>
  What happens to a queue: a task is submitted, the backend completes a pending task or
  puts a result on the queue, an agent calls \<open>get_result\<close>. A queue in use is the
  queue \<open>PipeQueues\<close> builds after any sequence of these.
\<close>

datatype 'v queue_op =
    Send "string list" string string
  | Finish nat "'v result"
  | Deliver "'v result"
  | Receive string nat "'v result option list"

fun queue_step :: "'v queues \<Rightarrow> 'v queue_op \<Rightarrow> 'v queues" where
  "queue_step q (Send input_args method_name topic_name) =
     send_inputs input_args method_name topic_name q"
| "queue_step q (Finish i r) = (case complete i r q of None \<Rightarrow> q | Some q' \<Rightarrow> q')"
| "queue_step q (Deliver r) = deliver r q"
| "queue_step q (Receive t timeout feed) = fst (snd (get_result t timeout feed q))"

fun receives_on :: "string \<Rightarrow> 'v queue_op \<Rightarrow> bool" where
  "receives_on t (Receive t' _ _) = (t' = t)"
| "receives_on t _ = False"

text \<open>
  The results of a topic among what the backend delivered, in order of arrival, and
  the result a call of \<open>get_result\<close> handed to its caller, if any.
\<close>

fun arrived :: "string \<Rightarrow> 'v result option list \<Rightarrow> 'v result list" where
  "arrived t [] = []"
| "arrived t (None # feed) = arrived t feed"
| "arrived t (Some r # feed) = (if topic r = t then r # arrived t feed else arrived t feed)"

fun taken :: "'v received \<Rightarrow> 'v result list" where
  "taken NoResult = []"
| "taken (Got r) = [r]"

text \<open>Every waiting result waits under its own topic.\<close>

definition tagged :: "'v queues \<Rightarrow> bool" where
  "tagged q \<longleftrightarrow> (\<forall>t r. r \<in> set (results q t) \<longrightarrow> topic r = t)"

text \<open>
  The queue of the notebook's demonstration, after
  \<open>queues.send_inputs('C', method='compute_vertical', topic='simulate')\<close> and the
  completion of that task; and the result of a second simulation that arrives later.
\<close>

definition demo_queue :: "int queues" where
  "demo_queue = foldl queue_step (PipeQueues three_topics)
     [Send [''C''] ''compute_vertical'' ''simulate'', Finish 0 energy]"

definition late_result :: "int result" where
  "late_result = energy\<lparr>task_method := ''compute_vertical'', inputs := ([''O''], []),
     topic := ''simulate''\<rparr>"

section \<open>The pool invariant\<close>

lemma pool_ok_init: "pool_ok (ResourceCounter n ts)"
  by (simp add: pool_ok_def ResourceCounter_def allocated_total_def list_all_iff)

lemma sum_list_upd_notin:
  "l \<notin> set ls \<Longrightarrow> sum_list (map (f(l := v)) ls) = sum_list (map f ls)"
  by (induction ls) auto

lemma sum_list_upd_in:
  "distinct ls \<Longrightarrow> l \<in> set ls \<Longrightarrow>
     sum_list (map (f(l := v)) ls) = sum_list (map f ls) - f l + (v::int)"
  by (induction ls) (auto simp: sum_list_upd_notin)

lemma pool_ok_acquire: "pool_ok c \<Longrightarrow> acquire l n c = Inr (Some c') \<Longrightarrow> pool_ok c'"
  by (fastforce simp: pool_ok_def acquire_def allocated_total_def list_all_iff split: if_splits)

lemma pool_ok_release: "pool_ok c \<Longrightarrow> release l n c = Inr c' \<Longrightarrow> pool_ok c'"
  by (auto simp: pool_ok_def release_def held_def allocated_total_def list_all_iff
      split: if_splits)

lemma pool_ok_reallocate: "pool_ok c \<Longrightarrow> reallocate f t n c = Inr c' \<Longrightarrow> pool_ok c'"
  by (auto simp: pool_ok_def reallocate_def allocated_total_def list_all_iff sum_list_upd_in
      split: if_splits option.splits)

lemma pool_ok_perform: "pool_ok c \<Longrightarrow> pool_ok (perform c op)"
  by (cases op)
     (auto split: sum.splits option.splits
       dest: pool_ok_acquire pool_ok_release pool_ok_reallocate)

lemma pool_ok_foldl: "pool_ok c \<Longrightarrow> pool_ok (foldl perform c ops)"
  by (induction ops arbitrary: c) (auto simp: pool_ok_perform)

lemma total_slots_perform: "total_slots (perform c op) = total_slots c"
  by (cases op)
     (auto simp: acquire_def release_def reallocate_def split: sum.splits option.splits)

lemma total_slots_foldl: "total_slots (foldl perform c ops) = total_slots c"
  by (induction ops arbitrary: c) (auto simp: total_slots_perform)

lemma pool_ok_allocated_nonneg: "pool_ok c \<Longrightarrow> 0 \<le> allocated c l"
  by (cases "l \<in> set (labels c)") (fastforce simp: pool_ok_def list_all_iff)+

text \<open>
  C1. Start from a pool of \<open>n\<close> worker slots and any list of labels, and apply any
  sequence of acquire, release and reallocate operations (with any arguments; the ones
  that block or fail change nothing). In the counter reached, the slots allocated
  across the labels plus the unallocated slots are \<open>n\<close>, and no label's allocated
  count is negative.
\<close>

theorem counter_conserves_slots:
  "allocated_total (foldl perform (ResourceCounter n ts) ops)
     + unallocated (foldl perform (ResourceCounter n ts) ops) = int n
   \<and> (\<forall>l. 0 \<le> allocated (foldl perform (ResourceCounter n ts) ops) l)"
proof -
  let ?c = "foldl perform (ResourceCounter n ts) ops"
  have ok: "pool_ok ?c"
    by (rule pool_ok_foldl [OF pool_ok_init])
  have "total_slots ?c = int n"
    by (simp add: total_slots_foldl ResourceCounter_def)
  with ok have "allocated_total ?c + unallocated ?c = int n"
    by (simp add: pool_ok_def)
  moreover from ok have "\<forall>l. 0 \<le> allocated ?c l"
    by (simp add: pool_ok_allocated_nonneg)
  ultimately show ?thesis by simp
qed

text \<open>
  A sample: four slots go to \<open>simulate\<close>, four are taken (the fifth acquire blocks),
  two are released and moved to \<open>train\<close>; a third cannot be moved, and \<open>train\<close>,
  which holds nothing, cannot release.
\<close>

lemma counter_sample_run:
  "(let c = foldl perform (ResourceCounter 4 [''simulate'', ''train'', ''infer''])
       [Reallocate None ''simulate'' 4, Acquire ''simulate'' 1, Acquire ''simulate'' 3,
        Acquire ''simulate'' 1, Release ''simulate'' 2,
        Reallocate (Some ''simulate'') ''train'' 2,
        Reallocate (Some ''simulate'') ''train'' 1, Release ''train'' 1]
    in (unallocated c, map (allocated c) (labels c), map (available c) (labels c)))
   = (0, [2, 2, 0], [0, 2, 0])"
  by (simp add: ResourceCounter_def acquire_def release_def reallocate_def held_def)

section \<open>Release beyond what is held\<close>

lemma release_fault: "L \<in> set (labels c) \<Longrightarrow> held c L < int n \<Longrightarrow>
   release L n c = Inl (AccountingFault L n (held c L))"
  by (simp add: release_def)

lemma pool_ok_held_le: "pool_ok c \<Longrightarrow> L \<in> set (labels c) \<Longrightarrow> held c L \<le> allocated c L \<and> 0 \<le> held c L"
  by (fastforce simp: pool_ok_def held_def list_all_iff)

lemma release_exact: "release L n c = Inr c' \<Longrightarrow>
   int n \<le> held c L \<and> held c' L = held c L - int n \<and> allocated c' = allocated c
   \<and> unallocated c' = unallocated c \<and> labels c' = labels c"
  by (auto simp: release_def held_def split: if_splits)

lemma release_other: "release l n c = Inr c' \<Longrightarrow> l \<noteq> L \<Longrightarrow> held c' L = held c L"
  by (auto simp: release_def held_def split: if_splits)

lemma perform_release_held_zero:
  "held c L = 0 \<Longrightarrow> is_release op \<Longrightarrow> held (perform c op) L = 0 \<and> labels (perform c op) = labels c"
proof (cases op)
  case (Release l k)
  assume h: "held c L = 0"
  show ?thesis
  proof (cases "release l k c")
    case (Inl e)
    with Release h show ?thesis by simp
  next
    case (Inr c')
    from release_exact [OF Inr] have e: "int k \<le> held c l" "held c' l = held c l - int k" "labels c' = labels c"
      by simp_all
    show ?thesis
    proof (cases "l = L")
      case True
      with e h have "held c' L = 0" by simp
      with Release Inr e show ?thesis by simp
    next
      case False
      with release_other [OF Inr] h Release Inr e show ?thesis by simp
    qed
  qed
qed simp_all

lemma releases_keep_zero:
  "held c L = 0 \<Longrightarrow> list_all is_release rels \<Longrightarrow>
     held (foldl perform c rels) L = 0 \<and> labels (foldl perform c rels) = labels c"
proof (induction rels arbitrary: c)
  case Nil
  then show ?case by simp
next
  case (Cons op rels)
  from Cons.prems have "held (perform c op) L = 0 \<and> labels (perform c op) = labels c"
    by (simp add: perform_release_held_zero)
  with Cons.IH [of "perform c op"] Cons.prems show ?case by simp
qed

text \<open>
  C5. For a label \<open>L\<close> of the counter and a count \<open>n\<close>: a release of \<open>n\<close> slots
  while \<open>L\<close> holds fewer than \<open>n\<close> (so also while fewer than \<open>n\<close> are allocated
  to \<open>L\<close>, in a counter that satisfies the pool invariant) is the accounting fault,
  which names the label, the request and the count held. A release that returns has
  subtracted exactly \<open>n\<close> from the count held and touched no allocation: nothing is
  clamped. After the release of all the slots \<open>L\<close> held, every further release of a
  positive count fails with the fault, whatever releases come in between, as long as
  there is no acquire and no reallocate.
\<close>

theorem release_beyond_held_is_fault:
  assumes "L \<in> set (labels c)"
  shows "(held c L < int n \<longrightarrow> release L n c = Inl (AccountingFault L n (held c L)))
    \<and> (pool_ok c \<and> allocated c L < int n \<longrightarrow> release L n c = Inl (AccountingFault L n (held c L)))
    \<and> (\<forall>c'. release L n c = Inr c' \<longrightarrow>
          int n \<le> held c L \<and> held c' L = held c L - int n
          \<and> allocated c' = allocated c \<and> unallocated c' = unallocated c)
    \<and> (\<forall>c' m rels. release L n c = Inr c' \<and> held c L = int n \<and> (0::nat) < m \<and> list_all is_release rels \<longrightarrow>
          release L m (foldl perform c' rels) = Inl (AccountingFault L m 0))"
proof (intro conjI allI impI)
  assume "held c L < int n"
  with assms show "release L n c = Inl (AccountingFault L n (held c L))"
    by (rule release_fault)
next
  assume a: "pool_ok c \<and> allocated c L < int n"
  with assms pool_ok_held_le [of c L] have "held c L < int n" by simp
  with assms show "release L n c = Inl (AccountingFault L n (held c L))"
    by (rule release_fault)
next
  fix c' assume "release L n c = Inr c'"
  from release_exact [OF this]
  show "int n \<le> held c L" "held c' L = held c L - int n" "allocated c' = allocated c" "unallocated c' = unallocated c"
    by simp_all
next
  fix c' and m :: nat and rels
  assume a: "release L n c = Inr c' \<and> held c L = int n \<and> 0 < m \<and> list_all is_release rels"
  then have r: "release L n c = Inr c'" by simp
  from release_exact [OF r] a have z: "held c' L = 0" and l: "labels c' = labels c" by simp_all
  from a have "list_all is_release rels" by simp
  from releases_keep_zero [OF z this] l assms
  have "held (foldl perform c' rels) L = 0" "L \<in> set (labels (foldl perform c' rels))" by simp_all
  moreover from a have "0 < m" by simp
  ultimately show "release L m (foldl perform c' rels) = Inl (AccountingFault L m 0)"
    using release_fault [of L "foldl perform c' rels" m] by simp
qed

lemma two_slots_fields:
  "labels two_slots = [''simulate'']" "allocated two_slots ''simulate'' = 2" "available two_slots ''simulate'' = 1"
  "unallocated two_slots = 0"
  by (simp_all add: two_slots_def ResourceCounter_def reallocate_def acquire_def)

theorem release_beyond_held_is_fault_witness:
  "''simulate'' \<in> set (labels two_slots) \<and> held two_slots ''simulate'' < int 2
   \<and> release ''simulate'' 2 two_slots = Inl (AccountingFault ''simulate'' 2 1)
   \<and> pool_ok two_slots \<and> allocated two_slots ''simulate'' < int 3
   \<and> release ''simulate'' 3 two_slots = Inl (AccountingFault ''simulate'' 3 1)
   \<and> (\<exists>c'. release ''simulate'' 1 two_slots = Inr c' \<and> held two_slots ''simulate'' = int 1
        \<and> list_all is_release [Release ''simulate'' 0]
        \<and> release ''simulate'' 1 (foldl perform c' [Release ''simulate'' 0]) = Inl (AccountingFault ''simulate'' 1 0))"
proof -
  have l: "''simulate'' \<in> set (labels two_slots)" by (simp add: two_slots_fields)
  have h: "held two_slots ''simulate'' = 1" by (simp add: held_def two_slots_fields)
  obtain c' where r: "release ''simulate'' 1 two_slots = Inr c'"
    by (simp add: release_def held_def two_slots_fields)
  from release_beyond_held_is_fault [OF l, of 2] h
  have "release ''simulate'' 2 two_slots = Inl (AccountingFault ''simulate'' 2 1)" by simp
  moreover have p: "pool_ok two_slots"
    unfolding two_slots_def by (rule pool_ok_foldl [OF pool_ok_init])
  moreover have a: "allocated two_slots ''simulate'' < int 3" by (simp add: two_slots_fields)
  moreover from release_beyond_held_is_fault [OF l, of 3] p a h
  have "release ''simulate'' 3 two_slots = Inl (AccountingFault ''simulate'' 3 1)" by simp
  moreover have "release ''simulate'' 1 two_slots = Inr c' \<and> held two_slots ''simulate'' = int 1
      \<and> (0::nat) < 1 \<and> list_all is_release [Release ''simulate'' 0]"
    using r h by simp
  with release_beyond_held_is_fault [OF l, of 1]
  have "release ''simulate'' 1 (foldl perform c' [Release ''simulate'' 0]) = Inl (AccountingFault ''simulate'' 1 0)"
    by blast
  ultimately show ?thesis using l h r by simp
qed

section \<open>Popping the priority list\<close>

lemma run_append:
  "run (es @ es') st =
     (case run es st of Reached st' \<Rightarrow> run es' st' | Stuck \<Rightarrow> Stuck
      | Crashed err st' \<Rightarrow> Crashed err st')"
  by (induction es arbitrary: st) (auto split: progress.splits)

lemma fresh_queue: "requests (PipeQueues ts) = []" "results (PipeQueues ts) t = []"
  by (simp_all add: PipeQueues_def)

lemma RandomThinker_Inr:
  "\<exists>st. RandomThinker qs n_eval n_par mols shuffle = Inr st"
  by (simp add: RandomThinker_def reallocate_def ResourceCounter_def)

lemma RandomThinker_fields:
  assumes "RandomThinker qs n_eval n_par mols shuffle = Inr st"
  shows "priority_list st = shuffle (remdups mols)" "queues st = qs" "database st = []"
    "simulation_results st = []" "done st = False" "n_to_evaluate st = n_eval" "logger st = []"
  using assms by (auto simp: RandomThinker_def split: sum.splits)

lemma submit_calc_nonempty:
  "priority_list st \<noteq> [] \<Longrightarrow> \<exists>st'. submit_calc st = Reached st'
     \<and> priority_list st' = butlast (priority_list st)
     \<and> requests (queues st') = requests (queues st) @ [simulation_request (last (priority_list st))]"
  by (cases "priority_list st") (simp_all add: submit_calc_def send_inputs_def simulation_request_def)

lemma submit_calc_empty: "priority_list st = [] \<Longrightarrow> submit_calc st = Crashed IndexError st"
  by (simp add: submit_calc_def)

lemma take_Suc_rev: "pl \<noteq> [] \<Longrightarrow> take (Suc k) (rev pl) = last pl # take k (rev (butlast pl))"
  by (cases pl rule: rev_cases) simp_all

lemma submits_within:
  "k \<le> length (priority_list st) \<Longrightarrow>
     \<exists>st'. submits k st = Reached st'
       \<and> priority_list st' = take (length (priority_list st) - k) (priority_list st)
       \<and> requests (queues st') = requests (queues st) @ map simulation_request (take k (rev (priority_list st)))"
proof (induction k arbitrary: st)
  case 0
  then show ?case by simp
next
  case (Suc k)
  then have ne: "priority_list st \<noteq> []" by auto
  from submit_calc_nonempty [OF ne] obtain st1 where
    s: "submit_calc st = Reached st1" and p: "priority_list st1 = butlast (priority_list st)"
    and r: "requests (queues st1) = requests (queues st) @ [simulation_request (last (priority_list st))]"
    by blast
  from Suc.prems p have "k \<le> length (priority_list st1)" by simp
  from Suc.IH [OF this] obtain st' where
    s': "submits k st1 = Reached st'"
    and p': "priority_list st' = take (length (priority_list st1) - k) (priority_list st1)"
    and r': "requests (queues st') = requests (queues st1) @ map simulation_request (take k (rev (priority_list st1)))"
    by blast
  have "submits (Suc k) st = Reached st'" using s s' by simp
  moreover have "priority_list st' = take (length (priority_list st) - Suc k) (priority_list st)"
    using p p' by (simp add: butlast_conv_take)
  moreover have "requests (queues st') = requests (queues st) @ map simulation_request (take (Suc k) (rev (priority_list st)))"
    using r r' p take_Suc_rev [OF ne, of k] by simp
  ultimately show ?case by blast
qed

lemma submits_beyond:
  "length (priority_list st) < k \<Longrightarrow>
     \<exists>st'. submits k st = Crashed IndexError st' \<and> priority_list st' = []"
proof (induction k arbitrary: st)
  case 0
  then show ?case by simp
next
  case (Suc k)
  show ?case
  proof (cases "priority_list st = []")
    case True
    then show ?thesis by (simp add: submit_calc_empty)
  next
    case False
    from submit_calc_nonempty [OF False] obtain st1 where
      s: "submit_calc st = Reached st1" and p: "priority_list st1 = butlast (priority_list st)"
      by blast
    from Suc.prems p False have "length (priority_list st1) < k" by (cases "priority_list st") auto
    from Suc.IH [OF this] s show ?thesis by simp
  qed
qed

text \<open>
  C10. \<open>submit_calc\<close> pops without a test of emptiness. From the state the
  constructor builds (for any \<open>shuffle\<close> that permutes): \<open>k\<close> calls all return when
  \<open>k\<close> is at most the number of distinct molecules, and they send \<open>k\<close> requests
  for \<open>k\<close> different molecules of the list, so no molecule is submitted twice; with
  \<open>k\<close> beyond that number, the run of calls ends in the \<open>IndexError\<close> of a pop from
  the empty list.
\<close>

theorem submit_calc_pops_each_molecule_once:
  assumes "RandomThinker qs n_eval n_par mols shuffle = Inr st0"
    and "mset (shuffle (remdups mols)) = mset (remdups mols)"
  shows "(k \<le> card (set mols) \<longrightarrow>
           (\<exists>st sent. submits k st0 = Reached st
              \<and> requests (queues st) = requests qs @ map simulation_request sent
              \<and> length sent = k \<and> distinct sent \<and> set sent \<subseteq> set mols
              \<and> length (priority_list st) = card (set mols) - k))
       \<and> (card (set mols) < k \<longrightarrow>
           (\<exists>st. submits k st0 = Crashed IndexError st \<and> priority_list st = []))"
proof -
  let ?pl = "priority_list st0"
  from RandomThinker_fields [OF assms(1)] have pl: "?pl = shuffle (remdups mols)" and q: "queues st0 = qs"
    by simp_all
  from assms(2) pl have m: "mset ?pl = mset (remdups mols)" by simp
  then have d: "distinct ?pl" by (metis distinct_remdups mset_eq_imp_distinct_iff)
  from m have s: "set ?pl = set mols" by (metis mset_eq_setD set_remdups)
  from d s have len: "length ?pl = card (set mols)" by (metis distinct_card)
  show ?thesis
  proof (intro conjI impI)
    assume "k \<le> card (set mols)"
    with len have "k \<le> length ?pl" by simp
    from submits_within [OF this] obtain st where
      a: "submits k st0 = Reached st"
      and b: "priority_list st = take (length ?pl - k) ?pl"
      and c: "requests (queues st) = requests (queues st0) @ map simulation_request (take k (rev ?pl))"
      by blast
    let ?sent = "take k (rev ?pl)"
    have "length ?sent = k" using \<open>k \<le> length ?pl\<close> by simp
    moreover have "distinct ?sent" using d by simp
    moreover have "set ?sent \<subseteq> set mols" using s by (metis set_rev set_take_subset)
    moreover have "length (priority_list st) = card (set mols) - k" using b len by simp
    ultimately show "\<exists>st sent. submits k st0 = Reached st
              \<and> requests (queues st) = requests qs @ map simulation_request sent
              \<and> length sent = k \<and> distinct sent \<and> set sent \<subseteq> set mols
              \<and> length (priority_list st) = card (set mols) - k"
      using a c q by blast
  next
    assume "card (set mols) < k"
    with len have "length ?pl < k" by simp
    from submits_beyond [OF this]
    show "\<exists>st. submits k st0 = Crashed IndexError st \<and> priority_list st = []" .
  qed
qed

theorem submit_calc_pops_each_molecule_once_witness:
  "\<exists>st0 :: int thinker.
      RandomThinker (PipeQueues three_topics) 2 2 [''C'', ''O'', ''C''] rev = Inr st0
    \<and> mset (rev (remdups [''C'', ''O'', ''C''])) = mset (remdups [''C'', ''O'', ''C''])
    \<and> (2::nat) \<le> card (set [''C'', ''O'', ''C''])
    \<and> (\<exists>st sent. submits 2 st0 = Reached st
          \<and> requests (queues st) = map simulation_request sent
          \<and> length sent = 2 \<and> distinct sent \<and> priority_list st = [])
    \<and> card (set [''C'', ''O'', ''C'']) < (3::nat)
    \<and> (\<exists>st. submits 3 st0 = Crashed IndexError st \<and> priority_list st = [])"
proof -
  obtain st0 :: "int thinker" where
    h: "RandomThinker (PipeQueues three_topics) 2 2 [''C'', ''O'', ''C''] rev = Inr st0"
    using RandomThinker_Inr by blast
  have p: "mset (rev (remdups [''C'', ''O'', ''C''])) = mset (remdups [''C'', ''O'', ''C''])"
    by simp
  have c: "card (set [''C'', ''O'', ''C'']) = 2" by (simp only: card_set) simp
  from submit_calc_pops_each_molecule_once [OF h p, of 2] c
  have a: "\<exists>st sent. submits 2 st0 = Reached st
          \<and> requests (queues st) = map simulation_request sent
          \<and> length sent = 2 \<and> distinct sent \<and> priority_list st = []"
    by (auto simp: fresh_queue)
  from submit_calc_pops_each_molecule_once [OF h p, of 3] c
  have b: "\<exists>st. submits 3 st0 = Crashed IndexError st \<and> priority_list st = []"
    by simp
  from c have "(2::nat) \<le> card (set [''C'', ''O'', ''C''])"
    "card (set [''C'', ''O'', ''C'']) < (3::nat)" by simp_all
  with h p a b show ?thesis by blast
qed

section \<open>The thinker between events\<close>

lemma RandomThinker_rec:
  assumes "RandomThinker qs n_eval n_par mols shuffle = Inr st"
  shows "pool_ok (rec st)" "labels (rec st) = [''simulate'', ''train'', ''infer'']"
    "allocated (rec st) ''simulate'' = int n_par" "available (rec st) ''simulate'' = int n_par"
proof -
  let ?c0 = "ResourceCounter n_par [''simulate'', ''train'', ''infer'']"
  from assms obtain c where r: "reallocate None ''simulate'' n_par ?c0 = Inr c" and s: "rec st = c"
    by (auto simp: RandomThinker_def split: sum.splits)
  from pool_ok_reallocate [OF pool_ok_init r] s show "pool_ok (rec st)" by simp
  from r s show "labels (rec st) = [''simulate'', ''train'', ''infer'']"
    "allocated (rec st) ''simulate'' = int n_par" "available (rec st) ''simulate'' = int n_par"
    by (auto simp: reallocate_def ResourceCounter_def split: if_splits)
qed

lemma get_result_now:
  "get_result t 0 feed q =
     (case results q t of [] \<Rightarrow> (NoResult, q, feed)
      | r # rs \<Rightarrow> (Got r, q\<lparr>results := (results q)(t := rs)\<rparr>, feed))"
  by (simp split: list.splits)

lemma acquire_one:
  "acquire l n c = Inr (Some c') \<Longrightarrow>
     held c' l = held c l + int n \<and> allocated c' = allocated c \<and> labels c' = labels c \<and> int n \<le> available c l"
  by (auto simp: acquire_def held_def split: if_splits)

lemma release_one:
  "release l n c = Inr c' \<Longrightarrow>
     held c' l = held c l - int n \<and> allocated c' = allocated c \<and> labels c' = labels c"
  by (auto simp: release_def held_def split: if_splits)

lemma submit_step:
  assumes "step Submit st = Reached st'"
  shows "\<exists>c. \<not> done st \<and> acquire ''simulate'' 1 (rec st) = Inr (Some c) \<and> rec st' = c
     \<and> priority_list st \<noteq> []
     \<and> queues st' = send_inputs [last (priority_list st)] ''compute_vertical'' ''default'' (queues st)
     \<and> simulation_results st' = simulation_results st \<and> database st' = database st
     \<and> done st' = done st \<and> n_to_evaluate st' = n_to_evaluate st"
  using assms
  by (auto simp: task_submitter_def submit_calc_def split: if_splits sum.splits option.splits list.splits)

lemma complete_step:
  assumes "step (Complete i r) st = Reached st'"
  shows "i < length (requests (queues st))
     \<and> queues st' = deliver (r\<lparr>task_method := req_method (requests (queues st) ! i),
                inputs := (req_args (requests (queues st) ! i), []),
                topic := req_topic (requests (queues st) ! i)\<rparr>)
             ((queues st)\<lparr>requests := take i (requests (queues st)) @ drop (Suc i) (requests (queues st))\<rparr>)
     \<and> rec st' = rec st
     \<and> simulation_results st' = simulation_results st \<and> database st' = database st
     \<and> done st' = done st \<and> n_to_evaluate st' = n_to_evaluate st"
  using assms by (auto simp: complete_def split: if_splits option.splits)

lemma process_step_idle:
  "results (queues st) ''default'' = [] \<Longrightarrow> step Process st = Reached st"
  by (simp add: result_processor_def)

lemma process_step_result:
  "results (queues st) ''default'' = r # rs \<Longrightarrow>
     step Process st = receive_calc (st\<lparr>queues := (queues st)\<lparr>results := (results (queues st))(''default'' := rs)\<rparr>\<rparr>) r"
  by (simp add: result_processor_def)

lemma receive_calc_Reached:
  assumes "receive_calc st r = Reached st'"
  shows "release ''simulate'' 1 (rec st) = Inr (rec st')
     \<and> queues st' = queues st
     \<and> simulation_results st' = simulation_results st @ [r]
     \<and> n_to_evaluate st' = n_to_evaluate st
     \<and> database st' = (if success r then AList.update (hd (args r)) (value r) (database st) else database st)
     \<and> done st' = (done st \<or> success r \<and> n_to_evaluate st \<le> int (length (database st')))
     \<and> logger st' = (if success r then logger st else logger st @ [''Simulation failure: '' @ failure_info r])
     \<and> priority_list st' = priority_list st"
  using assms
  by (auto simp: receive_calc_def Let_def split: sum.splits if_splits list.splits)

lemma outstanding_send:
  "outstanding (st\<lparr>queues := send_inputs a m t (queues st)\<rparr>) = Suc (outstanding st)"
  by (simp add: outstanding_def send_inputs_def)

lemma sys_ok_submit:
  assumes ok: "sys_ok n st" and m: "slots_match st" and s: "step Submit st = Reached st'"
  shows "sys_ok n st' \<and> slots_match st'"
proof -
  from submit_step [OF s] obtain c where
    a: "acquire ''simulate'' 1 (rec st) = Inr (Some c)" and r: "rec st' = c"
    and q: "queues st' = send_inputs [last (priority_list st)] ''compute_vertical'' ''default'' (queues st)"
    by blast
  from ok have p: "pool_ok (rec st)" by (simp add: sys_ok_def)
  from pool_ok_acquire [OF p a] have pc: "pool_ok c" .
  from acquire_one [OF a] have h: "held c ''simulate'' = held (rec st) ''simulate'' + 1"
    and al: "allocated c = allocated (rec st)" and lb: "labels c = labels (rec st)" by simp_all
  have "sys_ok n st'"
    using ok pc al lb r q by (simp add: sys_ok_def send_inputs_def)
  moreover have "outstanding st' = Suc (outstanding st)"
    using q by (simp add: outstanding_def send_inputs_def)
  with h m r have "slots_match st'" by (simp add: slots_match_def)
  ultimately show ?thesis by simp
qed

lemma list_all_remove_nth: "list_all P xs \<Longrightarrow> list_all P (take i xs @ drop (Suc i) xs)"
  by (auto simp: list_all_iff dest: in_set_takeD in_set_dropD)

lemma sys_ok_complete:
  assumes ok: "sys_ok n st" and m: "slots_match st" and s: "step (Complete i r) st = Reached st'"
  shows "sys_ok n st' \<and> slots_match st'"
proof -
  let ?rq = "requests (queues st) ! i"
  from complete_step [OF s] have i: "i < length (requests (queues st))"
    and q: "queues st' = deliver (r\<lparr>task_method := req_method ?rq, inputs := (req_args ?rq, []), topic := req_topic ?rq\<rparr>)
             ((queues st)\<lparr>requests := take i (requests (queues st)) @ drop (Suc i) (requests (queues st))\<rparr>)"
    and c: "rec st' = rec st" by simp_all
  from ok have la: "list_all (\<lambda>rq. req_topic rq = ''default'' \<and> req_args rq \<noteq> []) (requests (queues st))"
    by (simp add: sys_ok_def)
  with i have t: "req_topic ?rq = ''default''" and a: "req_args ?rq \<noteq> []"
    by (simp_all add: list_all_length)
  have rq': "requests (queues st') = take i (requests (queues st)) @ drop (Suc i) (requests (queues st))"
    using q by (simp add: deliver_def)
  have rs': "results (queues st') ''default'' = results (queues st) ''default''
       @ [r\<lparr>task_method := req_method ?rq, inputs := (req_args ?rq, []), topic := ''default''\<rparr>]"
    using q t by (simp add: deliver_def)
  have "sys_ok n st'"
    using ok c rq' rs' a list_all_remove_nth [OF la, of i] by (simp add: sys_ok_def args_def)
  moreover have "outstanding st' = outstanding st"
    using rq' rs' i by (simp add: outstanding_def)
  with m c have "slots_match st'" by (simp add: slots_match_def)
  ultimately show ?thesis by simp
qed

lemma sys_ok_process:
  assumes ok: "sys_ok n st" and m: "slots_match st" and s: "step Process st = Reached st'"
  shows "sys_ok n st' \<and> slots_match st'"
proof (cases "results (queues st) ''default''")
  case Nil
  from process_step_idle [OF Nil] s ok m show ?thesis by simp
next
  case (Cons r rs)
  let ?st1 = "st\<lparr>queues := (queues st)\<lparr>results := (results (queues st))(''default'' := rs)\<rparr>\<rparr>"
  from process_step_result [OF Cons] s have rc: "receive_calc ?st1 r = Reached st'" by simp
  from receive_calc_Reached [OF rc] have rel: "release ''simulate'' 1 (rec st) = Inr (rec st')"
    and q: "queues st' = (queues st)\<lparr>results := (results (queues st))(''default'' := rs)\<rparr>" by simp_all
  from ok have p: "pool_ok (rec st)" by (simp add: sys_ok_def)
  from pool_ok_release [OF p rel] have pc: "pool_ok (rec st')" .
  from release_one [OF rel] have h: "held (rec st') ''simulate'' = held (rec st) ''simulate'' - 1"
    and al: "allocated (rec st') = allocated (rec st)" and lb: "labels (rec st') = labels (rec st)" by simp_all
  have "sys_ok n st'"
    using ok pc al lb q Cons by (simp add: sys_ok_def)
  moreover have "Suc (outstanding st') = outstanding st"
    using q Cons by (simp add: outstanding_def)
  with h m have "slots_match st'" by (simp add: slots_match_def)
  ultimately show ?thesis by simp
qed

lemma sys_ok_step:
  "sys_ok n st \<Longrightarrow> slots_match st \<Longrightarrow> step e st = Reached st' \<Longrightarrow> sys_ok n st' \<and> slots_match st'"
  by (cases e) (blast dest: sys_ok_submit sys_ok_complete sys_ok_process)+

lemma step_crash:
  assumes ok: "sys_ok n st" and m: "slots_match st" and s: "step e st = Crashed err st'"
  shows "e = Submit \<and> err = IndexError \<and> priority_list st = [] \<and> queues st' = queues st
     \<and> simulation_results st' = simulation_results st
     \<and> (\<exists>c. acquire ''simulate'' 1 (rec st) = Inr (Some c) \<and> rec st' = c)"
proof (cases e)
  case Submit
  from ok have "''simulate'' \<in> set (labels (rec st))" by (simp add: sys_ok_def)
  with s Submit show ?thesis
    by (auto simp: task_submitter_def submit_calc_def acquire_def split: if_splits list.splits)
next
  case (Complete i r)
  with s show ?thesis by (simp add: complete_def split: if_splits)
next
  case Process
  show ?thesis
  proof (cases "results (queues st) ''default''")
    case Nil
    with s Process show ?thesis by (simp add: result_processor_def)
  next
    case (Cons r rs)
    from ok Cons have a: "args r \<noteq> []" by (simp add: sys_ok_def)
    from ok have l: "''simulate'' \<in> set (labels (rec st))" by (simp add: sys_ok_def)
    from m Cons have "1 \<le> held (rec st) ''simulate''" by (simp add: slots_match_def outstanding_def)
    with l obtain c where "release ''simulate'' 1 (rec st) = Inr c" by (simp add: release_def)
    with s Process Cons a show ?thesis
      by (auto simp: result_processor_def receive_calc_def Let_def split: if_splits list.splits)
  qed
qed

lemma run_Reached_ok:
  "sys_ok n st \<Longrightarrow> slots_match st \<Longrightarrow> run evs st = Reached st' \<Longrightarrow> sys_ok n st' \<and> slots_match st'"
proof (induction evs arbitrary: st)
  case Nil
  then show ?case by simp
next
  case (Cons e evs)
  from Cons.prems(3) obtain st1 where s: "step e st = Reached st1" and r: "run evs st1 = Reached st'"
    by (auto split: progress.splits)
  from sys_ok_step [OF Cons.prems(1,2) s] have "sys_ok n st1" "slots_match st1" by simp_all
  from Cons.IH [OF this r] show ?case .
qed

lemma run_Crashed_before:
  "run evs st = Crashed err st' \<Longrightarrow>
     \<exists>evs1 e evs2 st1. evs = evs1 @ e # evs2 \<and> run evs1 st = Reached st1 \<and> step e st1 = Crashed err st'"
proof (induction evs arbitrary: st)
  case Nil
  then show ?case by simp
next
  case (Cons e evs)
  show ?case
  proof (cases "step e st")
    case (Reached st1)
    with Cons.prems have "run evs st1 = Crashed err st'" by simp
    from Cons.IH [OF this] obtain evs1 e' evs2 st2 where
      "evs = evs1 @ e' # evs2" "run evs1 st1 = Reached st2" "step e' st2 = Crashed err st'" by blast
    with Reached have "e # evs = (e # evs1) @ e' # evs2 \<and> run (e # evs1) st = Reached st2 \<and> step e' st2 = Crashed err st'"
      by simp
    then show ?thesis by blast
  next
    case Stuck
    with Cons.prems show ?thesis by simp
  next
    case (Crashed err1 st1)
    with Cons.prems have "e # evs = [] @ e # evs \<and> run [] st = Reached st \<and> step e st = Crashed err st'" by simp
    then show ?thesis by blast
  qed
qed

lemma sys_ok_bound: "sys_ok n st \<Longrightarrow> slots_match st \<Longrightarrow> outstanding st \<le> n"
proof -
  assume ok: "sys_ok n st" and m: "slots_match st"
  then have "pool_ok (rec st)" "''simulate'' \<in> set (labels (rec st))" by (simp_all add: sys_ok_def)
  then have "0 \<le> available (rec st) ''simulate''" by (fastforce simp: pool_ok_def list_all_iff)
  with ok m show ?thesis by (simp add: sys_ok_def slots_match_def held_def)
qed

lemma sys_ok_init:
  assumes "RandomThinker qs n_eval n_par mols shuffle = Inr st0"
    and "requests qs = []" and "results qs ''default'' = []"
  shows "sys_ok n_par st0 \<and> slots_match st0"
proof -
  have q: "queues st0 = qs" using assms(1) by (auto simp: RandomThinker_def split: sum.splits)
  from RandomThinker_rec [OF assms(1)] q assms(2,3) show ?thesis
    by (simp add: sys_ok_def slots_match_def held_def outstanding_def)
qed

lemma submit_blocked_when_full:
  assumes ok: "sys_ok n st" and m: "slots_match st" and f: "outstanding st = n"
  shows "step Submit st = Stuck"
proof -
  from ok m f have "available (rec st) ''simulate'' = 0"
    by (simp add: sys_ok_def slots_match_def held_def)
  moreover from ok have "''simulate'' \<in> set (labels (rec st))" by (simp add: sys_ok_def)
  ultimately show ?thesis by (simp add: task_submitter_def acquire_def)
qed

text \<open>
  C4. The policy with the single label \<open>simulate\<close> over \<open>n_parallel\<close> slots, started
  on a queue with nothing pending: after any schedule of turns of the submitting agent,
  completions by the backend and turns of the result processor, the tasks outstanding
  are at most \<open>n_parallel\<close> and exactly as many as the slots held under
  \<open>simulate\<close> (one acquired before each submission, one released with each result
  processed); with \<open>n_parallel\<close> tasks outstanding the submitting agent is blocked,
  so a new task starts only as a slot frees. The bound also holds in the state in which
  an agent raised.
\<close>

theorem throttled_to_worker_slots:
  assumes "RandomThinker qs n_eval n_parallel mols shuffle = Inr st0"
    and "requests qs = []" and "results qs ''default'' = []"
  shows "(run evs st0 = Reached st \<longrightarrow>
            outstanding st \<le> n_parallel
            \<and> held (rec st) ''simulate'' = int (outstanding st)
            \<and> (outstanding st = n_parallel \<longrightarrow> step Submit st = Stuck))
       \<and> (run evs st0 = Crashed err st \<longrightarrow> outstanding st < n_parallel)"
proof -
  from sys_ok_init [OF assms] have a0: "sys_ok n_parallel st0" and b0: "slots_match st0"
    by simp_all
  have reached: "outstanding st \<le> n_parallel \<and> held (rec st) ''simulate'' = int (outstanding st)
      \<and> (outstanding st = n_parallel \<longrightarrow> step Submit st = Stuck)"
    if r: "run evs st0 = Reached st"
  proof -
    from run_Reached_ok [OF a0 b0 r] have ok: "sys_ok n_parallel st" and m: "slots_match st"
      by simp_all
    from sys_ok_bound [OF ok m] have "outstanding st \<le> n_parallel" .
    moreover from m have "held (rec st) ''simulate'' = int (outstanding st)"
      by (simp add: slots_match_def)
    moreover from submit_blocked_when_full [OF ok m]
    have "outstanding st = n_parallel \<longrightarrow> step Submit st = Stuck" by simp
    ultimately show ?thesis by simp
  qed
  have crashed: "outstanding st < n_parallel" if c: "run evs st0 = Crashed err st"
  proof -
    from run_Crashed_before [OF c] obtain evs1 e evs2 st1 where
      r: "run evs1 st0 = Reached st1" and s: "step e st1 = Crashed err st" by blast
    from run_Reached_ok [OF a0 b0 r] have ok: "sys_ok n_parallel st1" and m: "slots_match st1"
      by simp_all
    from step_crash [OF ok m s] obtain c where q: "queues st = queues st1"
      and a: "acquire ''simulate'' 1 (rec st1) = Inr (Some c)" by blast
    from acquire_one [OF a] have "1 \<le> available (rec st1) ''simulate''" by simp
    with ok m have "outstanding st1 < n_parallel"
      by (simp add: sys_ok_def slots_match_def held_def)
    with q show ?thesis by (simp add: outstanding_def)
  qed
  from reached crashed show ?thesis by blast
qed

theorem throttled_to_worker_slots_witness:
  "\<exists>st0 st :: int thinker.
      RandomThinker (PipeQueues three_topics) 8 2 [''C'', ''O'', ''N''] rev = Inr st0
    \<and> requests (PipeQueues three_topics :: int queues) = []
    \<and> results (PipeQueues three_topics :: int queues) ''default'' = []
    \<and> run [Submit, Submit] st0 = Reached st
    \<and> outstanding st = 2 \<and> held (rec st) ''simulate'' = 2 \<and> step Submit st = Stuck
    \<and> run [Submit, Submit, Submit] st0 = Stuck
    \<and> (\<exists>st0' st' :: int thinker.
          RandomThinker (PipeQueues three_topics) 8 2 [''C''] rev = Inr st0'
        \<and> run [Submit, Submit] st0' = Crashed IndexError st' \<and> outstanding st' < 2)"
proof -
  obtain st0' :: "int thinker" where
    h': "RandomThinker (PipeQueues three_topics) 8 2 [''C''] rev = Inr st0'"
    using RandomThinker_Inr by blast
  have "\<exists>st'. run [Submit, Submit] st0' = Crashed IndexError st'"
    using h'
    by (auto simp: RandomThinker_def reallocate_def ResourceCounter_def task_submitter_def
        acquire_def submit_calc_def send_inputs_def PipeQueues_def three_topics_def)
  then obtain st' where r': "run [Submit, Submit] st0' = Crashed IndexError st'"
    by blast
  from throttled_to_worker_slots [OF h' fresh_queue, of "[Submit, Submit]" st' IndexError] r'
  have o': "outstanding st' < 2" by simp
  from h' r' o' have crash: "\<exists>st0' st' :: int thinker.
          RandomThinker (PipeQueues three_topics) 8 2 [''C''] rev = Inr st0'
        \<and> run [Submit, Submit] st0' = Crashed IndexError st' \<and> outstanding st' < 2"
    by blast
  obtain st0 :: "int thinker" where
    h: "RandomThinker (PipeQueues three_topics) 8 2 [''C'', ''O'', ''N''] rev = Inr st0"
    using RandomThinker_Inr by blast
  have e: "\<exists>st. run [Submit, Submit] st0 = Reached st \<and> outstanding st = 2"
    using h
    by (auto simp: RandomThinker_def reallocate_def ResourceCounter_def task_submitter_def
        acquire_def submit_calc_def send_inputs_def PipeQueues_def outstanding_def three_topics_def)
  then obtain st where r: "run [Submit, Submit] st0 = Reached st" and o: "outstanding st = 2"
    by blast
  from throttled_to_worker_slots [OF h fresh_queue, of "[Submit, Submit]" st] r o
  have "held (rec st) ''simulate'' = 2" "step Submit st = Stuck" by simp_all
  moreover from this r run_append [of "[Submit, Submit]" "[Submit]" st0]
  have "run [Submit, Submit, Submit] st0 = Stuck"
    by simp
  moreover have "requests (PipeQueues three_topics :: int queues) = []"
    "results (PipeQueues three_topics :: int queues) ''default'' = []"
    by (rule fresh_queue)+
  ultimately show ?thesis using h r o crash by blast
qed

section \<open>Processing results\<close>

lemma length_update_ge: "length al \<le> length (AList.update k v al)"
  by (induction al) auto

lemma keeps_target:
  "step e st = Reached st' \<Longrightarrow> n_to_evaluate st' = n_to_evaluate st"
proof (cases e)
  case Submit
  assume "step e st = Reached st'"
  with Submit have "step Submit st = Reached st'" by simp
  from submit_step [OF this] show ?thesis by blast
next
  case (Complete i r)
  assume "step e st = Reached st'"
  with Complete have "step (Complete i r) st = Reached st'" by simp
  from complete_step [OF this] show ?thesis by simp
next
  case Process
  assume s: "step e st = Reached st'"
  show ?thesis
  proof (cases "results (queues st) ''default''")
    case Nil
    from process_step_idle [OF Nil] s Process show ?thesis by simp
  next
    case (Cons r rs)
    from process_step_result [OF Cons] s Process receive_calc_Reached show ?thesis
      by fastforce
  qed
qed

lemma run_keeps_target:
  "run evs st = Reached st' \<Longrightarrow> n_to_evaluate st' = n_to_evaluate st"
proof (induction evs arbitrary: st)
  case Nil
  then show ?case by simp
next
  case (Cons e evs)
  from Cons.prems obtain st1 where s: "step e st = Reached st1" and r: "run evs st1 = Reached st'"
    by (auto split: progress.splits)
  from Cons.IH [OF r] keeps_target [OF s] show ?case by simp
qed

lemma done_ok_step:
  assumes d: "done_ok st" and s: "step e st = Reached st'"
  shows "done_ok st'"
proof (cases e)
  case Submit
  with s have "step Submit st = Reached st'" by simp
  from submit_step [OF this] have "database st' = database st" "done st' = done st"
    "n_to_evaluate st' = n_to_evaluate st" by blast+
  with d show ?thesis by (simp add: done_ok_def)
next
  case (Complete i r)
  with s have "step (Complete i r) st = Reached st'" by simp
  from complete_step [OF this] have "database st' = database st" "done st' = done st"
    "n_to_evaluate st' = n_to_evaluate st" by simp_all
  with d show ?thesis by (simp add: done_ok_def)
next
  case Process
  show ?thesis
  proof (cases "results (queues st) ''default''")
    case Nil
    from process_step_idle [OF Nil] s Process d show ?thesis by simp
  next
    case (Cons r rs)
    let ?st1 = "st\<lparr>queues := (queues st)\<lparr>results := (results (queues st))(''default'' := rs)\<rparr>\<rparr>"
    from process_step_result [OF Cons] s Process have rc: "receive_calc ?st1 r = Reached st'" by simp
    from receive_calc_Reached [OF rc]
    have n: "n_to_evaluate st' = n_to_evaluate st"
      and db: "database st' = (if success r then AList.update (hd (args r)) (value r) (database st) else database st)"
      and dn: "done st' = (done st \<or> success r \<and> n_to_evaluate st \<le> int (length (database st')))"
      by simp_all
    from db have ge: "length (database st) \<le> length (database st')"
      by (simp add: length_update_ge)
    show ?thesis
    proof (cases "done st")
      case True
      with d have "n_to_evaluate st \<le> int (length (database st))" by (simp add: done_ok_def)
      with ge have "n_to_evaluate st \<le> int (length (database st'))" by simp
      with dn True n show ?thesis by (simp add: done_ok_def)
    next
      case False
      with d have lt: "int (length (database st)) < n_to_evaluate st" by (simp add: done_ok_def)
      show ?thesis
      proof (cases "success r")
        case True
        with dn False n show ?thesis by (simp add: done_ok_def)
      next
        case f: False
        with dn False db n lt show ?thesis by (simp add: done_ok_def)
      qed
    qed
  qed
qed

lemma done_ok_run:
  "done_ok st \<Longrightarrow> run evs st = Reached st' \<Longrightarrow> done_ok st'"
proof (induction evs arbitrary: st)
  case Nil
  then show ?case by simp
next
  case (Cons e evs)
  from Cons.prems(2) obtain st1 where s: "step e st = Reached st1" and r: "run evs st1 = Reached st'"
    by (auto split: progress.splits)
  from done_ok_step [OF Cons.prems(1) s] have "done_ok st1" .
  from Cons.IH [OF this r] show ?case .
qed

lemma process_consumes:
  assumes ok: "sys_ok n st" and m: "slots_match st"
    and q: "results (queues st) ''default'' = r # rs"
  shows "\<exists>st'. step Process st = Reached st'
     \<and> receive_calc (st\<lparr>queues := (queues st)\<lparr>results := (results (queues st))(''default'' := rs)\<rparr>\<rparr>) r = Reached st'
     \<and> args r \<noteq> []"
proof -
  let ?st1 = "st\<lparr>queues := (queues st)\<lparr>results := (results (queues st))(''default'' := rs)\<rparr>\<rparr>"
  from process_step_result [OF q] have e: "step Process st = receive_calc ?st1 r" .
  from ok q have a: "args r \<noteq> []" by (simp add: sys_ok_def)
  show ?thesis
  proof (cases "step Process st")
    case (Reached st')
    with e a show ?thesis by simp
  next
    case Stuck
    with e show ?thesis
      by (auto simp: receive_calc_def Let_def split: sum.splits if_splits list.splits)
  next
    case (Crashed err st')
    from step_crash [OF ok m Crashed] show ?thesis by simp
  qed
qed

lemmas thinker_defs = RandomThinker_def reallocate_def ResourceCounter_def task_submitter_def
  acquire_def release_def held_def submit_calc_def receive_calc_def result_processor_def
  send_inputs_def complete_def deliver_def PipeQueues_def outstanding_def three_topics_def
  args_def received_def

lemma RandomThinker_target:
  assumes "RandomThinker qs n_eval n_par mols shuffle = Inr st0"
  shows "n_to_evaluate st0 = n_eval" "done st0 = False" "database st0 = []"
  using assms by (auto simp: RandomThinker_def split: sum.splits)

lemma done_ok_init:
  assumes "RandomThinker qs n_eval n_par mols shuffle = Inr st0" and "0 < n_eval"
  shows "done_ok st0"
  using assms by (auto simp: RandomThinker_def done_ok_def split: sum.splits)

text \<open>
  With a target of 0 the claim C3 fails: in the state the constructor builds, the size
  of the database is at the target and the termination signal is unset; the result of
  a failed task is then taken and processed, and the size is still at the target and
  the signal still unset.
\<close>

lemma zero_target_constructed:
  "RandomThinker (PipeQueues three_topics) 0 2 [''C'', ''O''] rev = Inr zero_target"
  by (simp add: RandomThinker_def reallocate_def ResourceCounter_def zero_target_def
      PipeQueues_def three_topics_def)

lemma zero_target_run:
  "\<exists>st. run [Submit, Complete 0 xtb_failed, Process] zero_target = Reached st"
  by (auto simp: zero_target_def thinker_defs xtb_failed_def energy_def)

theorem signal_unset_at_target_zero:
  "RandomThinker (PipeQueues three_topics) 0 2 [''C'', ''O''] rev = Inr zero_target
   \<and> n_to_evaluate zero_target \<le> int (length (database zero_target))
   \<and> \<not> done zero_target
   \<and> run [Submit, Complete 0 xtb_failed, Process] zero_target = Reached zero_target_after
   \<and> length (simulation_results zero_target_after) = 1
   \<and> n_to_evaluate zero_target_after \<le> int (length (database zero_target_after))
   \<and> \<not> done zero_target_after"
proof -
  from zero_target_run have r: "run [Submit, Complete 0 xtb_failed, Process] zero_target
      = Reached zero_target_after"
    by (auto simp: zero_target_after_def)
  have z: "n_to_evaluate zero_target = 0" "database zero_target = []" "\<not> done zero_target"
    by (simp_all add: zero_target_def)
  have "\<exists>st. run [Submit, Complete 0 xtb_failed, Process] zero_target = Reached st
      \<and> length (simulation_results st) = 1 \<and> n_to_evaluate st = 0 \<and> \<not> done st"
    by (auto simp: zero_target_def thinker_defs xtb_failed_def energy_def)
  with r have "length (simulation_results zero_target_after) = 1"
    "n_to_evaluate zero_target_after = 0" "\<not> done zero_target_after"
    by auto
  with r z zero_target_constructed show ?thesis by simp
qed

text \<open>
  C3, as amended. In any state the thinker reaches from the constructor, before or
  after the termination signal, when a result \<open>r\<close> waits for the result processor:
  the processor's turn returns; the counter after it is the counter before it with one
  \<open>simulate\<close> slot released; the database has the value stored under the task's
  first argument if \<open>r\<close> succeeded and is unchanged if not; and the signal is set
  after the turn when it was set before or \<open>r\<close> is a success that leaves the
  database with at least \<open>n_to_evaluate\<close> entries. With a positive target the signal
  is then set exactly when the database has reached the target size, and it goes from
  unset to set exactly at the success that takes the size from below the target to the
  target. The release is the first statement: where it raises, \<open>receive_calc\<close>
  raises the same error and nothing else has happened.
\<close>

theorem receive_calc_releases_stores_and_signals:
  assumes "RandomThinker qs n_eval n_parallel mols shuffle = Inr st0"
    and "requests qs = []" and "results qs ''default'' = []"
    and "run evs st0 = Reached st"
    and "results (queues st) ''default'' = r # rs"
  shows "\<exists>st'. step Process st = Reached st'
      \<and> release ''simulate'' 1 (rec st) = Inr (rec st')
      \<and> args r \<noteq> []
      \<and> database st' =
          (if success r then AList.update (hd (args r)) (value r) (database st) else database st)
      \<and> (done st' \<longleftrightarrow> done st \<or> success r \<and> n_eval \<le> int (length (database st')))
      \<and> (0 < n_eval \<longrightarrow>
            (done st' \<longleftrightarrow> n_eval \<le> int (length (database st')))
          \<and> (done st' \<and> \<not> done st \<longleftrightarrow>
               success r \<and> int (length (database st)) < n_eval
               \<and> n_eval \<le> int (length (database st'))))
      \<and> (\<forall>s e. release ''simulate'' 1 (rec s) = Inl e \<longrightarrow> receive_calc s r = Crashed e s)"
proof -
  from sys_ok_init [OF assms(1,2,3)] have a0: "sys_ok n_parallel st0" and b0: "slots_match st0"
    by simp_all
  from run_Reached_ok [OF a0 b0 assms(4)] have ok: "sys_ok n_parallel st" and m: "slots_match st"
    by simp_all
  from run_keeps_target [OF assms(4)] RandomThinker_target(1) [OF assms(1)]
  have n: "n_to_evaluate st = n_eval" by simp
  let ?st1 = "st\<lparr>queues := (queues st)\<lparr>results := (results (queues st))(''default'' := rs)\<rparr>\<rparr>"
  from process_consumes [OF ok m assms(5)] obtain st' where
    s: "step Process st = Reached st'" and rc: "receive_calc ?st1 r = Reached st'"
    and a: "args r \<noteq> []" by blast
  from receive_calc_Reached [OF rc] n
  have rel: "release ''simulate'' 1 (rec st) = Inr (rec st')"
    and db: "database st' = (if success r then AList.update (hd (args r)) (value r) (database st) else database st)"
    and dn: "done st' \<longleftrightarrow> done st \<or> success r \<and> n_eval \<le> int (length (database st'))"
    by simp_all
  have positive: "(done st' \<longleftrightarrow> n_eval \<le> int (length (database st')))
          \<and> (done st' \<and> \<not> done st \<longleftrightarrow>
               success r \<and> int (length (database st)) < n_eval
               \<and> n_eval \<le> int (length (database st')))"
    if pos: "0 < n_eval"
  proof -
    from done_ok_init [OF assms(1) pos] have d0: "done_ok st0" .
    from done_ok_run [OF d0 assms(4)] have d: "done_ok st" .
    from done_ok_step [OF d s] keeps_target [OF s] n
    have d': "done st' \<longleftrightarrow> n_eval \<le> int (length (database st'))"
      by (simp add: done_ok_def)
    from d n have b: "done st \<longleftrightarrow> n_eval \<le> int (length (database st))"
      by (simp add: done_ok_def)
    from dn b d' have "done st' \<and> \<not> done st \<longleftrightarrow>
               success r \<and> int (length (database st)) < n_eval
               \<and> n_eval \<le> int (length (database st'))"
      by auto
    with d' show ?thesis by simp
  qed
  have order: "\<forall>s e. release ''simulate'' 1 (rec s) = Inl e \<longrightarrow> receive_calc s r = Crashed e s"
    by (simp add: receive_calc_def)
  from s rel a db dn positive order show ?thesis by blast
qed

theorem receive_calc_releases_stores_and_signals_witness:
  "\<exists>(st0 :: int thinker) st r1 r2 st1 st2.
      RandomThinker (PipeQueues three_topics) 1 2 [''C'', ''O''] rev = Inr st0
    \<and> requests (PipeQueues three_topics :: int queues) = []
    \<and> results (PipeQueues three_topics :: int queues) ''default'' = []
    \<and> (0::int) < 1
    \<and> run [Submit, Submit, Complete 0 energy, Complete 0 energy] st0 = Reached st
    \<and> results (queues st) ''default'' = [r1, r2] \<and> \<not> done st
    \<and> step Process st = Reached st1
    \<and> release ''simulate'' 1 (rec st) = Inr (rec st1)
    \<and> success r1 \<and> database st = [] \<and> database st1 = [(''C'', 7)] \<and> done st1
    \<and> run [Submit, Submit, Complete 0 energy, Complete 0 energy, Process] st0 = Reached st1
    \<and> results (queues st1) ''default'' = [r2]
    \<and> step Process st1 = Reached st2
    \<and> release ''simulate'' 1 (rec st1) = Inr (rec st2)
    \<and> success r2 \<and> database st2 = [(''C'', 7), (''O'', 7)] \<and> done st2
    \<and> release ''simulate'' 1 (rec st0) = Inl (AccountingFault ''simulate'' 1 0)
    \<and> receive_calc st0 r1 = Crashed (AccountingFault ''simulate'' 1 0) st0"
proof -
  let ?evs = "[Submit, Submit, Complete 0 energy, Complete 0 energy] :: int event list"
  obtain st0 :: "int thinker" where
    h: "RandomThinker (PipeQueues three_topics) 1 2 [''C'', ''O''] rev = Inr st0"
    using RandomThinker_Inr by blast
  have "\<exists>st r1 r2. run ?evs st0 = Reached st
      \<and> results (queues st) ''default'' = [r1, r2] \<and> \<not> done st \<and> success r1
      \<and> args r1 = [''C''] \<and> value r1 = 7 \<and> database st = []
      \<and> success r2 \<and> args r2 = [''O''] \<and> value r2 = 7"
    using h by (auto simp: thinker_defs energy_def)
  then obtain st r1 r2 where r: "run ?evs st0 = Reached st"
    and q: "results (queues st) ''default'' = [r1, r2]" and nd: "\<not> done st"
    and ok1: "success r1" and a1: "args r1 = [''C'']" and v1: "value r1 = 7"
    and db: "database st = []"
    and ok2: "success r2" and a2: "args r2 = [''O'']" and v2: "value r2 = 7"
    by blast
  have pos: "(0::int) < 1" by simp
  from receive_calc_releases_stores_and_signals [OF h fresh_queue r q] ok1 a1 v1 db nd
  obtain st1 where s1: "step Process st = Reached st1"
    and rel1: "release ''simulate'' 1 (rec st) = Inr (rec st1)"
    and db1: "database st1 = [(''C'', 7)]" and d1: "done st1"
    and first: "\<forall>s e. release ''simulate'' 1 (rec s) = Inl e \<longrightarrow> receive_calc s r1 = Crashed e s"
    by auto
  have f: "release ''simulate'' 1 (rec st0) = Inl (AccountingFault ''simulate'' 1 0)"
    using h by (auto simp: RandomThinker_def reallocate_def ResourceCounter_def release_def
        held_def split: sum.splits if_splits)
  from first f have c: "receive_calc st0 r1 = Crashed (AccountingFault ''simulate'' 1 0) st0"
    by blast
  from r s1 run_append [of ?evs "[Process]" st0]
  have r1: "run [Submit, Submit, Complete 0 energy, Complete 0 energy, Process] st0 = Reached st1"
    by simp
  from s1 q process_step_result [OF q]
    receive_calc_Reached [of "st\<lparr>queues := (queues st)\<lparr>results := (results (queues st))(''default'' := [r2])\<rparr>\<rparr>" r1 st1]
  have q1: "results (queues st1) ''default'' = [r2]" by simp
  from receive_calc_releases_stores_and_signals [OF h fresh_queue r1 q1] ok2 a2 v2 db1 d1
  obtain st2 where s2: "step Process st1 = Reached st2"
    and rel2: "release ''simulate'' 1 (rec st1) = Inr (rec st2)"
    and db2: "database st2 = [(''C'', 7), (''O'', 7)]" and d2: "done st2"
    by auto
  from h r q nd s1 rel1 ok1 db db1 d1 r1 q1 s2 rel2 ok2 db2 d2 pos f c
    fresh_queue [of three_topics]
  show ?thesis by blast
qed

lemma consumed_append:
  "run es st = Reached st' \<Longrightarrow> consumed (es @ es') st = consumed es st @ consumed es' st'"
  by (induction es arbitrary: st) (auto split: progress.splits)

lemma step_log:
  assumes ok: "sys_ok n st" and m: "slots_match st" and s: "step e st = Reached st'"
  shows "simulation_results st' = simulation_results st @ (case e of Process \<Rightarrow> received st | _ \<Rightarrow> [])"
proof (cases e)
  case Submit
  with s have "step Submit st = Reached st'" by simp
  from submit_step [OF this] have "simulation_results st' = simulation_results st" by blast
  with Submit show ?thesis by simp
next
  case (Complete i r)
  with s have "step (Complete i r) st = Reached st'" by simp
  from complete_step [OF this] have "simulation_results st' = simulation_results st" by simp
  with Complete show ?thesis by simp
next
  case Process
  show ?thesis
  proof (cases "results (queues st) ''default''")
    case Nil
    from process_step_idle [OF Nil] s Process Nil show ?thesis
      by (simp add: received_def)
  next
    case (Cons r rs)
    let ?st1 = "st\<lparr>queues := (queues st)\<lparr>results := (results (queues st))(''default'' := rs)\<rparr>\<rparr>"
    from process_step_result [OF Cons] s Process have rc: "receive_calc ?st1 r = Reached st'" by simp
    from receive_calc_Reached [OF rc] have "simulation_results st' = simulation_results st @ [r]"
      by simp
    with Process Cons show ?thesis by (simp add: received_def)
  qed
qed

lemma run_log:
  "sys_ok n st \<Longrightarrow> slots_match st \<Longrightarrow> run evs st = Reached st' \<Longrightarrow>
     simulation_results st' = simulation_results st @ consumed evs st"
proof (induction evs arbitrary: st)
  case Nil
  then show ?case by simp
next
  case (Cons e evs)
  from Cons.prems(3) obtain st1 where s: "step e st = Reached st1" and r: "run evs st1 = Reached st'"
    by (auto split: progress.splits)
  from sys_ok_step [OF Cons.prems(1,2) s] have o1: "sys_ok n st1" and m1: "slots_match st1" by simp_all
  from Cons.IH [OF o1 m1 r] step_log [OF Cons.prems(1,2) s] s show ?case by simp
qed

lemma crash_log:
  assumes ok: "sys_ok n st" and m: "slots_match st" and s: "step e st = Crashed err st'"
  shows "simulation_results st' = simulation_results st \<and> consumed (e # es) st = []"
proof -
  from step_crash [OF ok m s] have "e = Submit" "simulation_results st' = simulation_results st"
    by simp_all
  with s show ?thesis by simp
qed

text \<open>
  C9. Along any schedule from the constructor's state, \<open>simulation_results\<close> is the
  list of the results the result processor has taken from the queue, each once and in
  the order taken, successes and failures alike, so its length is their number; that
  also holds in a state in which an agent raised. From a reached state on, the log of
  any later state is the log now followed by what is consumed after: it only grows at
  its end. In any state at all, a call of \<open>receive_calc\<close> that returns has appended
  its result to the log.
\<close>

theorem every_result_logged_once:
  assumes "RandomThinker qs n_eval n_parallel mols shuffle = Inr st0"
    and "requests qs = []" and "results qs ''default'' = []"
  shows "(run evs st0 = Reached st \<longrightarrow>
            simulation_results st = consumed evs st0
            \<and> length (simulation_results st) = length (consumed evs st0)
            \<and> (\<forall>evs' st'. run evs' st = Reached st' \<longrightarrow>
                  simulation_results st' = simulation_results st @ consumed evs' st))
       \<and> (run evs st0 = Crashed err st \<longrightarrow> simulation_results st = consumed evs st0)
       \<and> (\<forall>s r s'. receive_calc s r = Reached s' \<longrightarrow>
             simulation_results s' = simulation_results s @ [r])"
proof -
  from sys_ok_init [OF assms] have a0: "sys_ok n_parallel st0" and b0: "slots_match st0"
    by simp_all
  have call: "\<forall>s r s'. receive_calc s r = Reached s' \<longrightarrow>
             simulation_results s' = simulation_results s @ [r]"
    using receive_calc_Reached by blast
  have e0: "simulation_results st0 = []"
    using assms(1) by (auto simp: RandomThinker_def split: sum.splits)
  have reached: "simulation_results st = consumed evs st0
      \<and> length (simulation_results st) = length (consumed evs st0)
      \<and> (\<forall>evs' st'. run evs' st = Reached st' \<longrightarrow>
            simulation_results st' = simulation_results st @ consumed evs' st)"
    if r: "run evs st0 = Reached st"
  proof -
    from run_Reached_ok [OF a0 b0 r] have ok: "sys_ok n_parallel st" and m: "slots_match st"
      by simp_all
    from run_log [OF a0 b0 r] e0 have "simulation_results st = consumed evs st0" by simp
    moreover have "\<forall>evs' st'. run evs' st = Reached st' \<longrightarrow>
            simulation_results st' = simulation_results st @ consumed evs' st"
      using run_log [OF ok m] by blast
    ultimately show ?thesis by simp
  qed
  have crashed: "simulation_results st = consumed evs st0" if c: "run evs st0 = Crashed err st"
  proof -
    from run_Crashed_before [OF c] obtain evs1 e evs2 st1 where
      v: "evs = evs1 @ e # evs2" and r: "run evs1 st0 = Reached st1"
      and s: "step e st1 = Crashed err st" by blast
    from run_Reached_ok [OF a0 b0 r] have ok: "sys_ok n_parallel st1" and m: "slots_match st1"
      by simp_all
    from run_log [OF a0 b0 r] e0 have "simulation_results st1 = consumed evs1 st0" by simp
    with crash_log [OF ok m s, of evs2] consumed_append [OF r, of "e # evs2"] v
    show ?thesis by simp
  qed
  from reached crashed call show ?thesis by blast
qed

theorem every_result_logged_once_witness:
  "\<exists>(st0 :: int thinker) st r1 r2.
      RandomThinker (PipeQueues three_topics) 8 2 [''C'', ''O''] rev = Inr st0
    \<and> requests (PipeQueues three_topics :: int queues) = []
    \<and> results (PipeQueues three_topics :: int queues) ''default'' = []
    \<and> run [Submit, Submit, Complete 1 xtb_failed, Process, Complete 0 energy, Process] st0
          = Reached st
    \<and> consumed [Submit, Submit, Complete 1 xtb_failed, Process, Complete 0 energy, Process] st0
          = [r1, r2]
    \<and> simulation_results st = [r1, r2]
    \<and> \<not> success r1 \<and> args r1 = [''O''] \<and> success r2 \<and> args r2 = [''C'']"
proof -
  let ?evs = "[Submit, Submit, Complete 1 xtb_failed, Process, Complete 0 energy, Process]"
  obtain st0 :: "int thinker" where
    h: "RandomThinker (PipeQueues three_topics) 8 2 [''C'', ''O''] rev = Inr st0"
    using RandomThinker_Inr by blast
  have "\<exists>st. run ?evs st0 = Reached st"
    using h by (auto simp: thinker_defs energy_def xtb_failed_def)
  then obtain st where r: "run ?evs st0 = Reached st" by blast
  have "\<exists>r1 r2. consumed ?evs st0 = [r1, r2]
      \<and> \<not> success r1 \<and> args r1 = [''O''] \<and> success r2 \<and> args r2 = [''C'']"
    using h by (auto simp: thinker_defs energy_def xtb_failed_def)
  then obtain r1 r2 where c: "consumed ?evs st0 = [r1, r2]"
    and p: "\<not> success r1" "args r1 = [''O'']" "success r2" "args r2 = [''C'']"
    by blast
  from every_result_logged_once [OF h fresh_queue, of ?evs st]
  have "run ?evs st0 = Reached st \<longrightarrow> simulation_results st = consumed ?evs st0"
    by blast
  with r have "simulation_results st = consumed ?evs st0" by blast
  with c have "simulation_results st = [r1, r2]" by (simp only:)
  with h r c p fresh_queue [of three_topics] show ?thesis by blast
qed

section \<open>Failed tasks\<close>

lemma replace_failed:
  "futures \<noteq> [] \<Longrightarrow> future = futures ! (pick mod length futures) \<Longrightarrow>
   exception future \<noteq> None \<Longrightarrow> task_args future \<noteq> [] \<Longrightarrow>
     replace_or_store pick new_future now (futures, train_data)
       = Inr (remove1 future futures @ [new_future], train_data)
     \<and> length (remove1 future futures @ [new_future]) = length futures"
  by (auto simp: replace_or_store_def Let_def length_remove1 split: list.splits)

lemma submit_after_release:
  assumes nd: "\<not> done st" and l: "''simulate'' \<in> set (labels (rec st))"
    and a: "1 \<le> available (rec st) ''simulate''" and p: "priority_list st \<noteq> []"
  shows "\<exists>st'. step Submit st = Reached st'
     \<and> requests (queues st') = requests (queues st) @ [simulation_request (last (priority_list st))]"
  using assms
  by (cases "priority_list st")
     (auto simp: task_submitter_def acquire_def submit_calc_def send_inputs_def
       simulation_request_def)

text \<open>
  C7. A result with \<open>success = False\<close> that the result processor takes, in any state
  the thinker reaches: the processor's turn returns (nothing raises, the thinker goes
  on), one \<open>simulate\<close> slot is released, the warning "Simulation failure: " followed
  by the failure description is logged, the result is appended to the log, the database
  and the termination signal are untouched, and with a molecule left in the priority
  list the submitting agent's next turn sends it in the freed slot. In the Parsl
  notebook, whose loop replaces failures, an iteration on a failed future is no error:
  it removes the future, appends the replacement's future, as many futures run as
  before, and \<open>train_data\<close> is unchanged. In any state at all, once the release has
  returned, \<open>receive_calc\<close> on a failed result returns, with the warning logged and
  the result appended.
\<close>

theorem failed_result_is_released_logged_and_replaced:
  assumes "RandomThinker qs n_eval n_parallel mols shuffle = Inr st0"
    and "requests qs = []" and "results qs ''default'' = []"
    and "run evs st0 = Reached st"
    and "results (queues st) ''default'' = r # rs" and "\<not> done st" and "\<not> success r"
  shows "(\<exists>st'. step Process st = Reached st'
          \<and> held (rec st') ''simulate'' = held (rec st) ''simulate'' - 1
          \<and> available (rec st') ''simulate'' = available (rec st) ''simulate'' + 1
          \<and> logger st' = logger st @ [''Simulation failure: '' @ failure_info r]
          \<and> simulation_results st' = simulation_results st @ [r]
          \<and> database st' = database st \<and> \<not> done st'
          \<and> (priority_list st' \<noteq> [] \<longrightarrow>
               (\<exists>st''. step Submit st' = Reached st''
                  \<and> requests (queues st'') =
                      requests (queues st') @ [simulation_request (last (priority_list st'))])))
       \<and> (\<forall>pick new_future now futures train_data (future :: 'w future).
            futures \<noteq> [] \<and> future = futures ! (pick mod length futures)
            \<and> exception future \<noteq> None \<and> task_args future \<noteq> [] \<longrightarrow>
              replace_or_store pick new_future now (futures, train_data)
                = Inr (remove1 future futures @ [new_future], train_data)
              \<and> length (remove1 future futures @ [new_future]) = length futures)
       \<and> (\<forall>s c. release ''simulate'' 1 (rec s) = Inr c \<longrightarrow>
             receive_calc s r =
               Reached (s\<lparr>rec := c,
                          logger := logger s @ [''Simulation failure: '' @ failure_info r],
                          simulation_results := simulation_results s @ [r]\<rparr>))"
proof -
  have call: "\<forall>s c. release ''simulate'' 1 (rec s) = Inr c \<longrightarrow>
             receive_calc s r =
               Reached (s\<lparr>rec := c,
                          logger := logger s @ [''Simulation failure: '' @ failure_info r],
                          simulation_results := simulation_results s @ [r]\<rparr>)"
    using assms(7) by (simp add: receive_calc_def)
  from sys_ok_init [OF assms(1,2,3)] have a0: "sys_ok n_parallel st0" and b0: "slots_match st0"
    by simp_all
  from run_Reached_ok [OF a0 b0 assms(4)] have ok: "sys_ok n_parallel st" and m: "slots_match st"
    by simp_all
  let ?st1 = "st\<lparr>queues := (queues st)\<lparr>results := (results (queues st))(''default'' := rs)\<rparr>\<rparr>"
  from process_consumes [OF ok m assms(5)] obtain st' where
    s: "step Process st = Reached st'" and rc: "receive_calc ?st1 r = Reached st'" by blast
  from receive_calc_Reached [OF rc] assms(6,7)
  have rel: "release ''simulate'' 1 (rec st) = Inr (rec st')"
    and lg: "logger st' = logger st @ [''Simulation failure: '' @ failure_info r]"
    and sr: "simulation_results st' = simulation_results st @ [r]"
    and db: "database st' = database st" and dn: "\<not> done st'"
    by simp_all
  from release_one [OF rel] have h: "held (rec st') ''simulate'' = held (rec st) ''simulate'' - 1"
    and al: "allocated (rec st') = allocated (rec st)" by simp_all
  from h al have av: "available (rec st') ''simulate'' = available (rec st) ''simulate'' + 1"
    by (simp add: held_def)
  from sys_ok_step [OF ok m s] have ok': "sys_ok n_parallel st'" by simp
  then have l': "''simulate'' \<in> set (labels (rec st'))" and "pool_ok (rec st')"
    by (simp_all add: sys_ok_def)
  from ok have "pool_ok (rec st)" "''simulate'' \<in> set (labels (rec st))" by (simp_all add: sys_ok_def)
  then have "0 \<le> available (rec st) ''simulate''" by (fastforce simp: pool_ok_def list_all_iff)
  with av have a1: "1 \<le> available (rec st') ''simulate''" by simp
  have next_one: "priority_list st' \<noteq> [] \<longrightarrow>
       (\<exists>st''. step Submit st' = Reached st''
          \<and> requests (queues st'') =
              requests (queues st') @ [simulation_request (last (priority_list st'))])"
    using submit_after_release [OF dn l' a1] by blast
  have first: "\<exists>st'. step Process st = Reached st'
          \<and> held (rec st') ''simulate'' = held (rec st) ''simulate'' - 1
          \<and> available (rec st') ''simulate'' = available (rec st) ''simulate'' + 1
          \<and> logger st' = logger st @ [''Simulation failure: '' @ failure_info r]
          \<and> simulation_results st' = simulation_results st @ [r]
          \<and> database st' = database st \<and> \<not> done st'
          \<and> (priority_list st' \<noteq> [] \<longrightarrow>
               (\<exists>st''. step Submit st' = Reached st''
                  \<and> requests (queues st'') =
                      requests (queues st') @ [simulation_request (last (priority_list st'))]))"
    using s h av lg sr db dn next_one by blast
  have second: "\<forall>pick new_future now futures train_data (future :: 'w future).
            futures \<noteq> [] \<and> future = futures ! (pick mod length futures)
            \<and> exception future \<noteq> None \<and> task_args future \<noteq> [] \<longrightarrow>
              replace_or_store pick new_future now (futures, train_data)
                = Inr (remove1 future futures @ [new_future], train_data)
              \<and> length (remove1 future futures @ [new_future]) = length futures"
    using replace_failed by blast
  from first second call show ?thesis by blast
qed

theorem failed_result_is_released_logged_and_replaced_witness:
  "\<exists>(st0 :: int thinker) st r st' st''.
      RandomThinker (PipeQueues three_topics) 8 2 [''C'', ''O''] rev = Inr st0
    \<and> requests (PipeQueues three_topics :: int queues) = []
    \<and> results (PipeQueues three_topics :: int queues) ''default'' = []
    \<and> run [Submit, Complete 0 xtb_failed] st0 = Reached st
    \<and> results (queues st) ''default'' = [r] \<and> \<not> done st \<and> \<not> success r
    \<and> step Process st = Reached st'
    \<and> available (rec st) ''simulate'' = 1 \<and> available (rec st') ''simulate'' = 2
    \<and> logger st' = [''Simulation failure: xtb failed'']
    \<and> simulation_results st' = [r] \<and> database st' = [] \<and> \<not> done st'
    \<and> priority_list st' = [''O'']
    \<and> step Submit st' = Reached st''
    \<and> requests (queues st'') = [simulation_request ''O'']
    \<and> [failed_future] \<noteq> [] \<and> failed_future = [failed_future] ! (0 mod length [failed_future])
    \<and> exception failed_future \<noteq> None \<and> task_args failed_future \<noteq> []
    \<and> replace_or_store 0 other_future 0 ([failed_future], [])
          = Inr (remove1 failed_future [failed_future] @ [other_future], [])"
proof -
  obtain st0 :: "int thinker" where
    h: "RandomThinker (PipeQueues three_topics) 8 2 [''C'', ''O''] rev = Inr st0"
    using RandomThinker_Inr by blast
  have "\<exists>st r. run [Submit, Complete 0 xtb_failed] st0 = Reached st
      \<and> results (queues st) ''default'' = [r] \<and> \<not> done st \<and> \<not> success r
      \<and> failure_info r = ''xtb failed'' \<and> logger st = [] \<and> simulation_results st = []
      \<and> database st = [] \<and> available (rec st) ''simulate'' = 1
      \<and> priority_list st = [''O''] \<and> requests (queues st) = []"
    using h by (auto simp: thinker_defs xtb_failed_def energy_def)
  then obtain st r where r: "run [Submit, Complete 0 xtb_failed] st0 = Reached st"
    and q: "results (queues st) ''default'' = [r]" and nd: "\<not> done st" and f: "\<not> success r"
    and i: "failure_info r = ''xtb failed''" "logger st = []" "simulation_results st = []"
      "database st = []" "available (rec st) ''simulate'' = 1"
      "priority_list st = [''O'']" "requests (queues st) = []"
    by blast
  have fut: "[failed_future] \<noteq> [] \<and> failed_future = [failed_future] ! (0 mod length [failed_future])
      \<and> exception failed_future \<noteq> None \<and> task_args failed_future \<noteq> []"
    by (simp add: failed_future_def)
  note main = failed_result_is_released_logged_and_replaced [OF h fresh_queue r q nd f]
  from main obtain st' where s: "step Process st = Reached st'"
    and a: "available (rec st') ''simulate'' = available (rec st) ''simulate'' + 1"
    and l: "logger st' = logger st @ [''Simulation failure: '' @ failure_info r]"
    and sr: "simulation_results st' = simulation_results st @ [r]"
    and d: "database st' = database st" "\<not> done st'"
    and n: "priority_list st' \<noteq> [] \<longrightarrow>
               (\<exists>st''. step Submit st' = Reached st''
                  \<and> requests (queues st'') =
                      requests (queues st') @ [simulation_request (last (priority_list st'))])"
    by blast
  from s q nd have pq: "priority_list st' = priority_list st \<and> queues st' = (queues st)\<lparr>results := (results (queues st))(''default'' := [])\<rparr>"
    using receive_calc_Reached [of "st\<lparr>queues := (queues st)\<lparr>results := (results (queues st))(''default'' := [])\<rparr>\<rparr>" r st']
      process_step_result [OF q] by simp
  with n i obtain st'' where s2: "step Submit st' = Reached st''"
    and rq: "requests (queues st'') = [simulation_request ''O'']"
    by auto
  from main fut have rep: "replace_or_store 0 other_future 0 ([failed_future], [])
          = Inr (remove1 failed_future [failed_future] @ [other_future], [])"
    by blast
  from a l sr d i pq have "available (rec st') ''simulate'' = 2"
    "logger st' = [''Simulation failure: xtb failed'']" "simulation_results st' = [r]"
    "database st' = []" "priority_list st' = [''O'']" by simp_all
  with h r q nd f s d(2) i(5) s2 rq fut rep fresh_queue [of three_topics] show ?thesis by blast
qed

section \<open>Topics\<close>

lemma tagged_init: "tagged (PipeQueues ts)"
  by (simp add: tagged_def PipeQueues_def)

lemma tagged_deliver: "tagged q \<Longrightarrow> tagged (deliver r q)"
  by (auto simp: tagged_def deliver_def)

lemma tagged_arrive: "tagged q \<Longrightarrow> tagged (arrive a q)"
  by (cases a) (simp_all add: tagged_deliver)

lemma tagged_send: "tagged q \<Longrightarrow> tagged (send_inputs a m t q)"
  by (simp add: tagged_def send_inputs_def)

lemma tagged_complete: "tagged q \<Longrightarrow> complete i r q = Some q' \<Longrightarrow> tagged q'"
  by (auto simp: tagged_def complete_def deliver_def split: if_splits)

lemma results_deliver:
  "results (deliver r q) t = (if topic r = t then results q t @ [r] else results q t)"
  by (simp add: deliver_def)

lemma results_arrive_other:
  "\<exists>ys. results (arrive a q) t = results q t @ ys"
  by (cases a) (simp_all add: results_deliver)

lemma get_result_props:
  "get_result t n feed q = (out, q', rest) \<Longrightarrow>
     (tagged q \<longrightarrow> tagged q')
   \<and> (\<forall>r. out = Got r \<and> tagged q \<longrightarrow> topic r = t)
   \<and> (\<forall>b. b \<noteq> t \<longrightarrow> (\<exists>ys. results q' b = results q b @ ys))
   \<and> requests q' = requests q"
proof (induction t n feed q rule: get_result.induct)
  case (1 t timeout feed q)
  show ?case
  proof (cases "results q t")
    case (Cons r rs)
    with "1.prems" have o: "out = Got r" and q': "q' = q\<lparr>results := (results q)(t := rs)\<rparr>"
      by simp_all
    from Cons have "r \<in> set (results q t)" by simp
    with o q' Cons show ?thesis by (fastforce simp: tagged_def)
  next
    case Nil
    note empty = Nil
    show ?thesis
    proof (cases timeout)
      case 0
      with empty "1.prems" show ?thesis by simp
    next
      case (Suc ticks)
      show ?thesis
      proof (cases feed)
        case Nil
        with empty Suc "1.prems" have "get_result t ticks [] q = (out, q', rest)" by simp
        from "1.IH"(1) [OF empty Suc Nil this] show ?thesis .
      next
        case (Cons a later)
        with empty Suc "1.prems" have g: "get_result t ticks later (arrive a q) = (out, q', rest)"
          by simp
        from "1.IH"(2) [OF empty Suc Cons g]
        have ih: "(tagged (arrive a q) \<longrightarrow> tagged q')
          \<and> (\<forall>r. out = Got r \<and> tagged (arrive a q) \<longrightarrow> topic r = t)
          \<and> (\<forall>b. b \<noteq> t \<longrightarrow> (\<exists>ys. results q' b = results (arrive a q) b @ ys))
          \<and> requests q' = requests (arrive a q)" .
        have rq: "requests (arrive a q) = requests q" by (cases a) (simp_all add: deliver_def)
        have "\<forall>b. b \<noteq> t \<longrightarrow> (\<exists>ys. results q' b = results q b @ ys)"
        proof (intro allI impI)
          fix b assume "b \<noteq> t"
          with ih obtain ys where "results q' b = results (arrive a q) b @ ys" by blast
          moreover from results_arrive_other obtain zs where "results (arrive a q) b = results q b @ zs"
            by blast
          ultimately show "\<exists>ys. results q' b = results q b @ ys" by simp
        qed
        with ih rq tagged_arrive [of q a] show ?thesis by simp
      qed
    qed
  qed
qed

lemma tagged_step: "tagged q \<Longrightarrow> tagged (queue_step q op)"
proof (cases op)
  case (Receive t n feed)
  assume t: "tagged q"
  obtain out q' rest where g: "get_result t n feed q = (out, q', rest)"
    by (cases "get_result t n feed q") auto
  from get_result_props [OF g] t have "tagged q'" by simp
  with Receive g show ?thesis by simp
qed (auto simp: tagged_send tagged_deliver split: option.splits dest: tagged_complete)

lemma tagged_foldl: "tagged q \<Longrightarrow> tagged (foldl queue_step q ops)"
  by (induction ops arbitrary: q) (simp_all add: tagged_step)

lemma kept_step:
  assumes "r \<in> set (results q B)" and "\<not> receives_on B op"
  shows "r \<in> set (results (queue_step q op) B)"
proof (cases op)
  case (Send a m t)
  with assms show ?thesis by (simp add: send_inputs_def)
next
  case (Finish i r')
  with assms show ?thesis
    by (auto simp: complete_def results_deliver split: option.splits if_splits)
next
  case (Deliver r')
  with assms show ?thesis by (simp add: results_deliver)
next
  case (Receive t n feed)
  with assms have ne: "B \<noteq> t" by simp
  obtain out q' rest where g: "get_result t n feed q = (out, q', rest)"
    by (cases "get_result t n feed q") auto
  from get_result_props [OF g] ne obtain ys where "results q' B = results q B @ ys" by blast
  with assms Receive g show ?thesis by simp
qed

lemma kept_foldl:
  "r \<in> set (results q B) \<Longrightarrow> list_all (\<lambda>op. \<not> receives_on B op) later \<Longrightarrow>
     r \<in> set (results (foldl queue_step q later) B)"
  by (induction later arbitrary: q) (simp_all add: kept_step)

lemma get_result_head:
  "results q B = r # rs \<Longrightarrow>
     get_result B n feed q = (Got r, q\<lparr>results := (results q)(B := rs)\<rparr>, feed)"
  by simp

lemma complete_delivers:
  assumes "complete i r q = Some q'"
  shows "\<exists>r'. topic r' = req_topic (requests q ! i) \<and> success r' = success r
     \<and> args r' = req_args (requests q ! i)
     \<and> results q' (topic r') = results q (topic r') @ [r']"
proof -
  let ?rq = "requests q ! i"
  let ?r' = "r\<lparr>task_method := req_method ?rq, inputs := (req_args ?rq, []), topic := req_topic ?rq\<rparr>"
  from assms have "q' = deliver ?r' (q\<lparr>requests := take i (requests q) @ drop (Suc i) (requests q)\<rparr>)"
    by (simp add: complete_def split: if_splits)
  then have "results q' (topic ?r') = results q (topic ?r') @ [?r']"
    by (simp add: deliver_def)
  moreover have "topic ?r' = req_topic ?rq" "success ?r' = success r" "args ?r' = req_args ?rq"
    by (simp_all add: args_def)
  ultimately show ?thesis by blast
qed

lemma results_arrive: "results (arrive a q) b = results q b @ arrived b [a]"
  by (cases a) (simp_all add: results_deliver)

lemma arrived_Cons: "arrived b (a # used) = arrived b [a] @ arrived b used"
  by (cases a) simp_all

lemma get_result_conserves:
  "get_result t n feed q = (out, q', rest) \<Longrightarrow>
     \<exists>used. feed = used @ rest
       \<and> (\<forall>b. b \<noteq> t \<longrightarrow> results q' b = results q b @ arrived b used)
       \<and> taken out @ results q' t = results q t @ arrived t used"
proof (induction t n feed q rule: get_result.induct)
  case (1 t timeout feed q)
  show ?case
  proof (cases "results q t")
    case (Cons r rs)
    with "1.prems" have "out = Got r" "q' = q\<lparr>results := (results q)(t := rs)\<rparr>" "rest = feed"
      by simp_all
    with Cons have "feed = [] @ rest
       \<and> (\<forall>b. b \<noteq> t \<longrightarrow> results q' b = results q b @ arrived b [])
       \<and> taken out @ results q' t = results q t @ arrived t []"
      by simp
    then show ?thesis by blast
  next
    case Nil
    note empty = Nil
    show ?thesis
    proof (cases timeout)
      case 0
      with empty "1.prems" have "out = NoResult" "q' = q" "rest = feed" by simp_all
      then have "feed = [] @ rest
         \<and> (\<forall>b. b \<noteq> t \<longrightarrow> results q' b = results q b @ arrived b [])
         \<and> taken out @ results q' t = results q t @ arrived t []"
        by simp
      then show ?thesis by blast
    next
      case (Suc ticks)
      show ?thesis
      proof (cases feed)
        case Nil
        with empty Suc "1.prems" have "get_result t ticks [] q = (out, q', rest)" by simp
        from "1.IH"(1) [OF empty Suc Nil this] Nil show ?thesis by simp
      next
        case (Cons a later)
        with empty Suc "1.prems" have g: "get_result t ticks later (arrive a q) = (out, q', rest)"
          by simp
        from "1.IH"(2) [OF empty Suc Cons g] obtain used where
          u: "later = used @ rest"
          and o: "\<forall>b. b \<noteq> t \<longrightarrow> results q' b = results (arrive a q) b @ arrived b used"
          and s: "taken out @ results q' t = results (arrive a q) t @ arrived t used"
          by blast
        from u Cons have "feed = (a # used) @ rest" by simp
        moreover from o have "\<forall>b. b \<noteq> t \<longrightarrow> results q' b = results q b @ arrived b (a # used)"
          by (simp add: results_arrive arrived_Cons [of _ a used])
        moreover from s have "taken out @ results q' t = results q t @ arrived t (a # used)"
          by (simp add: results_arrive arrived_Cons [of _ a used])
        ultimately show ?thesis by blast
      qed
    qed
  qed
qed

text \<open>
  C2. In a queue in use, for every topic \<open>A\<close>: a \<open>get_result\<close> on \<open>A\<close> that
  returns a result returns one whose topic is \<open>A\<close>. A result that waits under a
  topic \<open>B\<close> still waits there after any further submissions, completions,
  deliveries and calls of \<open>get_result\<close> on other topics, however interleaved, and
  the first that waits under \<open>B\<close> is what a \<open>get_result\<close> on \<open>B\<close> returns.
  The result of a task submitted under a topic is put behind the results waiting under
  that topic. And nothing that arrives while an agent waits is dropped: a call of
  \<open>get_result\<close> on \<open>A\<close> consumes a front part of what the backend delivers
  during the wait and leaves the rest undelivered; after it every other topic \<open>B\<close>
  holds what it held followed by the results of topic \<open>B\<close> that arrived, in order,
  and topic \<open>A\<close> holds what it held followed by its arrivals, less the one result
  handed to the caller, which was the first of them.
\<close>

theorem topic_isolation:
  "(\<forall>A n feed r q' rest.
       get_result A n feed (foldl queue_step (PipeQueues ts) ops) = (Got r, q', rest)
         \<longrightarrow> topic r = A)
   \<and> (\<forall>B r later.
       r \<in> set (results (foldl queue_step (PipeQueues ts) ops) B)
       \<and> list_all (\<lambda>op. \<not> receives_on B op) later
         \<longrightarrow> r \<in> set (results (foldl queue_step (foldl queue_step (PipeQueues ts) ops) later) B))
   \<and> (\<forall>B r rs n feed.
       results (foldl queue_step (PipeQueues ts) ops) B = r # rs
         \<longrightarrow> fst (get_result B n feed (foldl queue_step (PipeQueues ts) ops)) = Got r)
   \<and> (\<forall>i r q'.
       complete i r (foldl queue_step (PipeQueues ts) ops) = Some q'
         \<longrightarrow> (\<exists>r'. topic r' = req_topic (requests (foldl queue_step (PipeQueues ts) ops) ! i)
                \<and> results q' (topic r')
                    = results (foldl queue_step (PipeQueues ts) ops) (topic r') @ [r']))
   \<and> (\<forall>A n feed out q' rest.
       get_result A n feed (foldl queue_step (PipeQueues ts) ops) = (out, q', rest)
         \<longrightarrow> (\<exists>used. feed = used @ rest
                \<and> (\<forall>B. B \<noteq> A \<longrightarrow>
                      results q' B
                        = results (foldl queue_step (PipeQueues ts) ops) B @ arrived B used)
                \<and> taken out @ results q' A
                    = results (foldl queue_step (PipeQueues ts) ops) A @ arrived A used))"
proof -
  let ?Q = "foldl queue_step (PipeQueues ts) ops"
  have t: "tagged ?Q" by (rule tagged_foldl [OF tagged_init])
  have a: "\<forall>A n feed r q' rest. get_result A n feed ?Q = (Got r, q', rest) \<longrightarrow> topic r = A"
    using get_result_props t by blast
  have b: "\<forall>B r later. r \<in> set (results ?Q B) \<and> list_all (\<lambda>op. \<not> receives_on B op) later
         \<longrightarrow> r \<in> set (results (foldl queue_step ?Q later) B)"
    using kept_foldl by blast
  have c: "\<forall>B r rs n feed. results ?Q B = r # rs \<longrightarrow> fst (get_result B n feed ?Q) = Got r"
    by simp
  have d: "\<forall>i r q'. complete i r ?Q = Some q'
         \<longrightarrow> (\<exists>r'. topic r' = req_topic (requests ?Q ! i)
                \<and> results q' (topic r') = results ?Q (topic r') @ [r'])"
    using complete_delivers by blast
  have e: "\<forall>A n feed out q' rest. get_result A n feed ?Q = (out, q', rest)
         \<longrightarrow> (\<exists>used. feed = used @ rest
                \<and> (\<forall>B. B \<noteq> A \<longrightarrow> results q' B = results ?Q B @ arrived B used)
                \<and> taken out @ results q' A = results ?Q A @ arrived A used)"
    using get_result_conserves by blast
  from a b c d e show ?thesis by blast
qed

lemma demo_queue_results:
  "results demo_queue ''simulate''
     = [energy\<lparr>task_method := ''compute_vertical'', inputs := ([''C''], []), topic := ''simulate''\<rparr>]"
  "results demo_queue ''infer'' = []"
  by (simp_all add: demo_queue_def PipeQueues_def send_inputs_def complete_def deliver_def)

theorem topic_isolation_witness:
  "\<exists>r q' rest.
      demo_queue = foldl queue_step (PipeQueues three_topics)
                     [Send [''C''] ''compute_vertical'' ''simulate'', Finish 0 energy]
    \<and> results demo_queue ''simulate'' = [r]
    \<and> get_result ''simulate'' 0 [] demo_queue = (Got r, q', rest) \<and> topic r = ''simulate''
    \<and> list_all (\<lambda>op. \<not> receives_on ''simulate'' op)
          [Receive ''infer'' 15 [None, Some late_result]]
    \<and> r \<in> set (results (foldl queue_step demo_queue
                            [Receive ''infer'' 15 [None, Some late_result]]) ''simulate'')
    \<and> fst (get_result ''simulate'' 3 [] demo_queue) = Got r
    \<and> (\<exists>q2. get_result ''infer'' 15 [None, Some late_result] demo_queue = (NoResult, q2, [])
          \<and> results q2 ''simulate'' = [r, late_result]
          \<and> results q2 ''infer'' = []
          \<and> fst (get_result ''simulate'' 0 [] q2) = Got r)
    \<and> (\<exists>q1 r1. complete 0 late_result demo_queue = None
          \<and> complete 0 energy
                (foldl queue_step (PipeQueues three_topics)
                   [Send [''C''] ''compute_vertical'' ''simulate'']) = Some q1
          \<and> topic r1 = ''simulate'' \<and> results q1 ''simulate'' = [r1])"
proof -
  let ?sent = "foldl queue_step (PipeQueues three_topics)
                 [Send [''C''] ''compute_vertical'' ''simulate''] :: int queues"
  have rq: "requests ?sent
      = [\<lparr>req_method = ''compute_vertical'', req_args = [''C''], req_topic = ''simulate''\<rparr>]"
    "results ?sent ''simulate'' = []"
    by (simp_all add: PipeQueues_def send_inputs_def)
  then obtain q1 where c1: "complete 0 energy ?sent = Some q1"
    by (simp add: complete_def)
  from topic_isolation [of three_topics "[Send [''C''] ''compute_vertical'' ''simulate'']"]
  have "\<forall>i r q'. complete i r ?sent = Some q'
         \<longrightarrow> (\<exists>r'. topic r' = req_topic (requests ?sent ! i)
                \<and> results q' (topic r') = results ?sent (topic r') @ [r'])"
    by (elim conjE) assumption
  with c1 obtain r1 where "topic r1 = req_topic (requests ?sent ! 0)"
    "results q1 (topic r1) = results ?sent (topic r1) @ [r1]" by blast
  with rq have d1: "topic r1 = ''simulate''" "results q1 ''simulate'' = [r1]" by simp_all
  have n1: "complete 0 late_result demo_queue = None"
    by (simp add: complete_def demo_queue_def PipeQueues_def send_inputs_def deliver_def)
  from c1 d1 n1 have fin: "\<exists>q1 r1. complete 0 late_result demo_queue = None
          \<and> complete 0 energy ?sent = Some q1
          \<and> topic r1 = ''simulate'' \<and> results q1 ''simulate'' = [r1]"
    by blast
  let ?ops = "[Send [''C''] ''compute_vertical'' ''simulate'', Finish 0 energy] :: int queue_op list"
  let ?later = "[Receive ''infer'' 15 [None, Some late_result]] :: int queue_op list"
  obtain r where q: "results demo_queue ''simulate'' = [r]"
    by (simp add: demo_queue_results)
  obtain q' rest where g: "get_result ''simulate'' 0 [] demo_queue = (Got r, q', rest)"
    using q by simp
  have l: "list_all (\<lambda>op. \<not> receives_on ''simulate'' op) ?later" by simp
  have m: "r \<in> set (results demo_queue ''simulate'')" using q by simp
  note iso = topic_isolation [of three_topics ?ops, folded demo_queue_def]
  from iso have iso_a: "\<forall>A n feed r q' rest.
      get_result A n feed demo_queue = (Got r, q', rest) \<longrightarrow> topic r = A"
    by (elim conjE) assumption
  from iso have iso_b: "\<forall>B r later. r \<in> set (results demo_queue B)
      \<and> list_all (\<lambda>op. \<not> receives_on B op) later
        \<longrightarrow> r \<in> set (results (foldl queue_step demo_queue later) B)"
    by (elim conjE) assumption
  from iso have iso_c: "\<forall>B r rs n feed. results demo_queue B = r # rs
        \<longrightarrow> fst (get_result B n feed demo_queue) = Got r"
    by (elim conjE) assumption
  from iso have iso_e: "\<forall>A n feed out q' rest.
      get_result A n feed demo_queue = (out, q', rest)
        \<longrightarrow> (\<exists>used. feed = used @ rest
               \<and> (\<forall>B. B \<noteq> A \<longrightarrow> results q' B = results demo_queue B @ arrived B used)
               \<and> taken out @ results q' A = results demo_queue A @ arrived A used)"
    by (elim conjE) assumption
  from iso_a g have t: "topic r = ''simulate''" by blast
  from iso_b m l have k: "r \<in> set (results (foldl queue_step demo_queue ?later) ''simulate'')"
    by blast
  from iso_c q have f: "fst (get_result ''simulate'' 3 [] demo_queue) = Got r" by blast
  have tl: "topic late_result = ''simulate''" by (simp add: late_result_def)
  obtain out q2 rest2 where
    g2: "get_result ''infer'' 15 [None, Some late_result] demo_queue = (out, q2, rest2)"
    by (cases "get_result ''infer'' 15 [None, Some late_result] demo_queue") auto
  have "fst g = NoResult \<and> snd (snd g) = []"
    if "g = get_result ''infer'' 15 [None, Some late_result] demo_queue" for g
    using that tl by (simp add: demo_queue_results results_deliver)
  with g2 have o2: "out = NoResult" "rest2 = []" by simp_all
  from iso_e g2 obtain used where u: "[None, Some late_result] = used @ rest2"
    and ob: "\<forall>B. B \<noteq> ''infer'' \<longrightarrow> results q2 B = results demo_queue B @ arrived B used"
    and oa: "taken out @ results q2 ''infer'' = results demo_queue ''infer'' @ arrived ''infer'' used"
    by blast
  from u o2 have used: "used = [None, Some late_result]" by simp
  from ob used q tl have s2: "results q2 ''simulate'' = [r, late_result]" by simp
  from oa used o2 tl have i2: "results q2 ''infer'' = []"
    by (simp add: demo_queue_results)
  from s2 have f2: "fst (get_result ''simulate'' 0 [] q2) = Got r" by simp
  from g2 o2 s2 i2 f2 have wait: "\<exists>q2.
      get_result ''infer'' 15 [None, Some late_result] demo_queue = (NoResult, q2, [])
          \<and> results q2 ''simulate'' = [r, late_result]
          \<and> results q2 ''infer'' = []
          \<and> fst (get_result ''simulate'' 0 [] q2) = Got r"
    by blast
  from q g t l k f fin wait demo_queue_def show ?thesis by blast
qed

lemma get_result_timeout:
  "results q A = [] \<Longrightarrow> \<forall>r. Some r \<in> set (take n feed) \<longrightarrow> topic r \<noteq> A \<Longrightarrow>
     get_result A n feed q = (NoResult, foldl (\<lambda>q a. arrive a q) q (take n feed), drop n feed)
     \<and> results (foldl (\<lambda>q a. arrive a q) q (take n feed)) A = []"
proof (induction n arbitrary: feed q)
  case 0
  then show ?case by simp
next
  case (Suc n)
  show ?case
  proof (cases feed)
    case Nil
    with Suc.prems Suc.IH [of q "[]"] show ?thesis by simp
  next
    case (Cons a later)
    with Suc.prems have e: "results (arrive a q) A = []"
      by (cases a) (auto simp: results_deliver)
    from Cons Suc.prems have o: "\<forall>r. Some r \<in> set (take n later) \<longrightarrow> topic r \<noteq> A" by simp
    from Suc.IH [OF e o] Cons Suc.prems(1) show ?thesis by simp
  qed
qed

text \<open>
  C6. When no result waits under the topic and none of its topic arrives within the
  \<open>timeout\<close> ticks of the wait, \<open>get_result\<close> returns, with the outcome
  \<open>NoResult\<close>; the results of other topics that arrived meanwhile are in the queue,
  and the feed is consumed up to the timeout and no further. The outcome is a value the
  caller can test and retry on: a later call during which a result of the topic arrives
  returns that result.
\<close>

theorem receive_times_out_with_no_result:
  assumes "results q A = []"
    and "\<forall>r. Some r \<in> set (take timeout feed) \<longrightarrow> topic r \<noteq> A"
  shows "get_result A timeout feed q
           = (NoResult, foldl (\<lambda>q a. arrive a q) q (take timeout feed), drop timeout feed)
       \<and> (\<forall>r n feed'. topic r = A \<longrightarrow>
             fst (get_result A (Suc n) (Some r # feed')
                    (foldl (\<lambda>q a. arrive a q) q (take timeout feed))) = Got r)"
proof -
  let ?q' = "foldl (\<lambda>q a. arrive a q) q (take timeout feed)"
  from get_result_timeout [OF assms]
  have g: "get_result A timeout feed q = (NoResult, ?q', drop timeout feed)"
    and e: "results ?q' A = []" by simp_all
  have "\<forall>r n feed'. topic r = A \<longrightarrow> fst (get_result A (Suc n) (Some r # feed') ?q') = Got r"
  proof (intro allI impI)
    fix r :: "'a result" and n feed'
    assume "topic r = A"
    with e have "results (arrive (Some r) ?q') A = [r]" by (simp add: results_deliver)
    with e show "fst (get_result A (Suc n) (Some r # feed') ?q') = Got r"
      by (cases n) simp_all
  qed
  with g show ?thesis by simp
qed

theorem receive_times_out_with_no_result_witness:
  "results demo_queue ''infer'' = []
   \<and> topic late_result \<noteq> ''infer''
   \<and> get_result ''infer'' 15 [None, Some late_result] demo_queue
        = (NoResult, deliver late_result demo_queue, [])
   \<and> length (results (deliver late_result demo_queue) ''simulate'') = 2
   \<and> fst (get_result ''infer'' 1 [Some (late_result\<lparr>topic := ''infer''\<rparr>)]
             (deliver late_result demo_queue))
        = Got (late_result\<lparr>topic := ''infer''\<rparr>)"
proof -
  have e: "results demo_queue ''infer'' = []" by (rule demo_queue_results)
  have t: "topic late_result \<noteq> ''infer''" by (simp add: late_result_def)
  then have o: "\<forall>r. Some r \<in> set (take 15 [None, Some late_result]) \<longrightarrow> topic r \<noteq> ''infer''"
    by simp
  from receive_times_out_with_no_result [OF e o]
  have "get_result ''infer'' 15 [None, Some late_result] demo_queue
        = (NoResult, deliver late_result demo_queue, [])"
    and "fst (get_result ''infer'' 1 [Some (late_result\<lparr>topic := ''infer''\<rparr>)]
             (deliver late_result demo_queue))
        = Got (late_result\<lparr>topic := ''infer''\<rparr>)"
    by simp_all
  moreover have "length (results (deliver late_result demo_queue) ''simulate'') = 2"
    by (simp add: results_deliver demo_queue_results late_result_def)
  ultimately show ?thesis using e t by simp
qed

end
